theory Spec2Isabelle
  imports
    Complex_Main
    "HOL-Library.AList"
    "HOL-Library.Char_ord"
    "HOL-Library.List_Lexorder"
    "HOL-Library.Option_ord"
    "HOL-Library.Sublist"
    "HOL-Library.Multiset"
    "HOL-Library.Log_Nat"
begin

section \<open>Python values and exceptions\<close>

text \<open>
  The program is Python 3 (its \<^verbatim>\<open>print(..., end=, file=)\<close> calls do not parse under
  Python 2, and the header records the conversion). Two kinds of number occur: unbounded
  integers and floats. A float is an IEEE-754 binary64 value; \<open>PFloat r\<close> carries the
  rational \<open>r\<close> that the double denotes.
\<close>

datatype pynum = PInt int | PFloat rat

fun num_val :: "pynum \<Rightarrow> rat" where
  "num_val (PInt n) = of_int n"
| "num_val (PFloat r) = r"

datatype error =
    SystemExit pynum
  | IOError
  | ParseError
  | TypeError
  | KeyError
  | ZeroDivisionError
  | OverflowError

subsection \<open>Rounding to binary64\<close>

text \<open>
  \<open>ilog2 q\<close> is the binary exponent of a non-zero rational: \<open>2 powi ilog2 q \<le> \<bar>q\<bar> < 2 powi (ilog2 q + 1)\<close>.
  It is computed from the bit lengths of numerator and denominator, which fix the
  exponent up to one.
\<close>

definition ilog2 :: "rat \<Rightarrow> int" where
  "ilog2 q =
     (let (n, d) = quotient_of \<bar>q\<bar>;
          k = bitlen n - bitlen d
      in if 2 powi k \<le> \<bar>q\<bar> then k else k - 1)"

definition round_half_even :: "rat \<Rightarrow> int" where
  "round_half_even x =
     (let f = \<lfloor>x\<rfloor>; r = x - of_int f
      in if r < 1 / 2 then f
         else if 1 / 2 < r then f + 1
         else if even f then f else f + 1)"

text \<open>
  \<open>fl q\<close> is \<open>q\<close> rounded to the nearest double, ties to even: 53 significant bits
  for normal numbers, multiples of \<open>2 powi - 1074\<close> below the normal range. The exponent
  is not bounded above here; the operations below say what happens at \<open>2 ^ 1024\<close>.
\<close>

definition fl :: "rat \<Rightarrow> rat" where
  "fl q =
     (if q = 0 then 0
      else let u = 2 powi (max (ilog2 q) (- 1022) - 52)
           in of_int (round_half_even (q / u)) * u)"

text \<open>
  \<^verbatim>\<open>float(n)\<close> for an integer \<open>n\<close>, as the mixed operators \<^verbatim>\<open>int - float\<close> apply it:
  OverflowError when the rounded value leaves the double range.
\<close>

definition float_of_int :: "int \<Rightarrow> error + rat" where
  "float_of_int n =
     (if 2 ^ 1024 \<le> \<bar>fl (of_int n)\<bar> then Inl OverflowError else Inr (fl (of_int n)))"

text \<open>
  \<^verbatim>\<open>doc_yes * 100.0 / (doc_yes + doc_no)\<close> (lines 142 and 171): the count is converted
  to a float, multiplied by \<open>100.0\<close>, and divided by the converted total; each step
  rounds. Both counts are lengths of lists (below \<open>2 ^ 63\<close> in CPython), so the
  conversions and the product stay far inside the double range and no overflow case is
  written out for them.
\<close>

definition py_percent :: "nat \<Rightarrow> nat \<Rightarrow> error + pynum" where
  "py_percent doc_yes doc_all =
     (if doc_all = 0 then Inl ZeroDivisionError
      else Inr (PFloat (fl (fl (fl (of_nat doc_yes) * 100) / fl (of_nat doc_all)))))"

text \<open>
  \<^verbatim>\<open>total_yes * 100 / total_all\<close> (line 185): both operands are integers, and \<^verbatim>\<open>/\<close>
  is Python 3's true division, the correctly rounded quotient as a float.
\<close>

definition int_truediv :: "nat \<Rightarrow> nat \<Rightarrow> error + pynum" where
  "int_truediv a b =
     (if b = 0 then Inl ZeroDivisionError
      else Inr (PFloat (fl (of_nat a / of_nat b))))"

text \<open>\<^verbatim>\<open>ns.threshold - total_per\<close> with an integer on the left and a float on the right.\<close>

definition int_sub_float :: "int \<Rightarrow> rat \<Rightarrow> error + rat" where
  "int_sub_float n x =
     (case float_of_int n of
        Inl e \<Rightarrow> Inl e
      | Inr y \<Rightarrow> Inr (fl (y - x)))"

text \<open>\<^verbatim>\<open>'%d' % x\<close>: an integer is printed as it is, a float truncated toward zero.\<close>

fun py_int :: "pynum \<Rightarrow> int" where
  "py_int (PInt n) = n"
| "py_int (PFloat r) = (if 0 \<le> r then \<lfloor>r\<rfloor> else \<lceil>r\<rceil>)"

section \<open>The XML documents\<close>

text \<open>
  An \<^verbatim>\<open>xml.etree.ElementTree.Element\<close>: tag, attributes, the text before the first
  child (\<open>None\<close> when there is none) and the child elements in document order.
\<close>

datatype xml =
  Element (tag: string) (attrib: "(string \<times> string) list") (etext: "string option")
    (children: "xml list")

text \<open>\<^verbatim>\<open>elem.get(key)\<close>: the attribute, or \<open>None\<close>.\<close>

definition get :: "xml \<Rightarrow> string \<Rightarrow> string option" where
  "get e key = map_of (attrib e) key"

text \<open>\<^verbatim>\<open>elem.iter(tag)\<close>: the element itself and its descendants with that tag, in document order.\<close>

fun iter :: "string \<Rightarrow> xml \<Rightarrow> xml list" where
  "iter t (Element tg atts tx cs) =
     (if tg = t then [Element tg atts tx cs] else []) @ concat (map (iter t) cs)"

text \<open>\<^verbatim>\<open>elem.findall('./t')\<close> (also written \<^verbatim>\<open>'t'\<close>): the children with tag \<open>t\<close>.\<close>

definition findall_child :: "string \<Rightarrow> xml \<Rightarrow> xml list" where
  "findall_child t e = filter (\<lambda>c. tag c = t) (children e)"

text \<open>\<^verbatim>\<open>elem.find('./t')\<close>: the first such child, or \<open>None\<close>.\<close>

definition find_child :: "string \<Rightarrow> xml \<Rightarrow> xml option" where
  "find_child t e = (case findall_child t e of [] \<Rightarrow> None | c # _ \<Rightarrow> Some c)"

text \<open>
  \<^verbatim>\<open>elem.findall('./t/')\<close>: ElementPath reads a trailing slash as \<^verbatim>\<open>/*\<close>, so these are
  all children of the children tagged \<open>t\<close>.
\<close>

definition findall_grandchild :: "string \<Rightarrow> xml \<Rightarrow> xml list" where
  "findall_grandchild t e = concat (map children (findall_child t e))"

text \<open>
  \<^verbatim>\<open>tree.findall('./compounddef//memberdef')\<close>: for each \<open>compounddef\<close> child of the root,
  every \<open>memberdef\<close> below it at any depth.
\<close>

definition findall_memberdef :: "xml \<Rightarrow> xml list" where
  "findall_memberdef tree =
     concat (map (\<lambda>c. concat (map (iter ''memberdef'') (children c)))
                 (findall_child ''compounddef'' tree))"

section \<open>The symbol extractor: \<open>parse_file\<close>\<close>

text \<open>
  A Python \<^verbatim>\<open>dict\<close> is an association list in insertion order; \<open>AList.update\<close> is
  \<^verbatim>\<open>d[k] = v\<close> (an existing key keeps its place, a new one goes last). The keys of
  \<open>definitions\<close> are what \<^verbatim>\<open>.text\<close> and \<^verbatim>\<open>.get('id')\<close> return: a string or \<open>None\<close>.
\<close>

type_synonym definitions = "(string option \<times> bool) list"

text \<open>Lines 73-74: the test that makes the loop \<^verbatim>\<open>continue\<close>.\<close>

definition is_static_function :: "xml \<Rightarrow> bool" where
  "is_static_function definition_node =
     (get definition_node ''kind'' = Some ''function'' \<and>
      get definition_node ''static'' = Some ''yes'')"

text \<open>Lines 78-84.\<close>

definition documented :: "xml \<Rightarrow> bool" where
  "documented definition_node =
     list_ex (\<lambda>k. findall_grandchild k definition_node \<noteq> [])
       [''briefdescription'', ''detaileddescription'', ''inbodydescription'']"

text \<open>Lines 87-88 and 95-100.\<close>

definition member_name :: "xml \<Rightarrow> string option" where
  "member_name definition_node =
     (case find_child ''definition'' definition_node of
        Some d_def \<Rightarrow> etext d_def
      | None \<Rightarrow>
          (case find_child ''name'' definition_node of
             Some d_nam \<Rightarrow> etext d_nam
           | None \<Rightarrow> get definition_node ''id''))"

text \<open>\<^verbatim>\<open>not sourcefile\<close>: true for \<open>None\<close> and for the empty string.\<close>

definition falsy :: "string option \<Rightarrow> bool" where
  "falsy s = (s = None \<or> s = Some [])"

text \<open>Lines 90-93.\<close>

definition locate :: "xml \<Rightarrow> string option \<Rightarrow> string option" where
  "locate definition_node sourcefile =
     (if falsy sourcefile then
        (case find_child ''location'' definition_node of
           Some loc \<Rightarrow> get loc ''file''
         | None \<Rightarrow> sourcefile)
      else sourcefile)"

text \<open>One pass of the loop of lines 71-103 over the state \<open>(sourcefile, definitions)\<close>.\<close>

definition member_step :: "xml \<Rightarrow> string option \<times> definitions \<Rightarrow> string option \<times> definitions" where
  "member_step definition_node st =
     (if is_static_function definition_node then st
      else (locate definition_node (fst st),
            AList.update (member_name definition_node) (documented definition_node) (snd st)))"

text \<open>Lines 68-108 on a parsed document.\<close>

definition parse_tree :: "string \<Rightarrow> xml \<Rightarrow> string \<times> definitions" where
  "parse_tree fullpath tree =
     (let st = fold member_step (findall_memberdef tree) (None, [])
      in (case fst st of
            None \<Rightarrow> fullpath
          | Some s \<Rightarrow> if s = [] then fullpath else s,
          snd st))"

text \<open>
  The file system the program reads: a path has no file, a file that is not well-formed
  XML, or a document.
\<close>

datatype fsentry = NotXML | Document xml

type_synonym filesystem = "string \<Rightarrow> fsentry option"

definition parse_file :: "filesystem \<Rightarrow> string \<Rightarrow> error + string \<times> definitions" where
  "parse_file fs fullpath =
     (case fs fullpath of
        None \<Rightarrow> Inl IOError
      | Some NotXML \<Rightarrow> Inl ParseError
      | Some (Document tree) \<Rightarrow> Inr (parse_tree fullpath tree))"

section \<open>Reading the index: \<open>parse\<close>\<close>

text \<open>The parsed command line (\<^verbatim>\<open>argparse.Namespace\<close>), the global \<^verbatim>\<open>ns\<close>.\<close>

record namespace =
  dir :: string
  noerror :: bool
  threshold :: int
  excludedirs :: "string list"

text \<open>
  \<^verbatim>\<open>FATAL\<close> (lines 57-59) writes to standard error and raises
  \<^verbatim>\<open>SystemExit((1, 0)[ns.noerror])\<close>.
\<close>

definition FATAL :: "namespace \<Rightarrow> error" where
  "FATAL ns = SystemExit (PInt (if noerror ns then 0 else 1))"

text \<open>\<^verbatim>\<open>os.path.join(a, b)\<close> on a POSIX system.\<close>

definition os_path_join :: "string \<Rightarrow> string \<Rightarrow> string" where
  "os_path_join a b =
     (if b \<noteq> [] \<and> hd b = CHR ''/'' then b
      else if a = [] \<or> last a = CHR ''/'' then a @ b
      else a @ ''/'' @ b)"

text \<open>\<^verbatim>\<open>'%s' % x\<close> for a string or \<open>None\<close>.\<close>

definition percent_s :: "string option \<Rightarrow> string" where
  "percent_s x = (case x of None \<Rightarrow> ''None'' | Some s \<Rightarrow> s)"

text \<open>
  The table \<open>files\<close>: source-file path to the list of symbol mappings of the records
  that resolve to it, in insertion order.
\<close>

type_synonym files = "(string \<times> definitions list) list"

text \<open>Lines 125-129: a record with an empty mapping is dropped.\<close>

definition add_record :: "string \<times> definitions \<Rightarrow> files \<Rightarrow> files" where
  "add_record tmp files =
     (if snd tmp \<noteq> [] then
        (case map_of files (fst tmp) of
           Some l \<Rightarrow> AList.update (fst tmp) (l @ [snd tmp]) files
         | None \<Rightarrow> AList.update (fst tmp) [snd tmp] files)
      else files)"

text \<open>
  The loop of lines 119-129. \<^verbatim>\<open>entry.get('kind') in ('dir')\<close> tests against the string
  \<^verbatim>\<open>'dir'\<close> (the parentheses make no tuple): a substring test, and a TypeError when the
  attribute is missing.
\<close>

fun parse_entries :: "filesystem \<Rightarrow> string \<Rightarrow> xml list \<Rightarrow> files \<Rightarrow> error + files" where
  "parse_entries fs path [] files = Inr files"
| "parse_entries fs path (entry # entries) files =
     (case get entry ''kind'' of
        None \<Rightarrow> Inl TypeError
      | Some kind \<Rightarrow>
          if sublist kind ''dir'' then parse_entries fs path entries files
          else (case parse_file fs (os_path_join path (percent_s (get entry ''refid'') @ ''.xml'')) of
                  Inl e \<Rightarrow> Inl e
                | Inr tmp \<Rightarrow> parse_entries fs path entries (add_record tmp files)))"

definition parse :: "namespace \<Rightarrow> filesystem \<Rightarrow> string \<Rightarrow> error + files" where
  "parse ns fs path =
     (let index_fp = os_path_join path ''index.xml''
      in case fs index_fp of
           None \<Rightarrow> Inl (FATAL ns)
         | Some NotXML \<Rightarrow> Inl ParseError
         | Some (Document tree) \<Rightarrow> parse_entries fs path (findall_child ''compound'' tree) [])"

section \<open>The coverage aggregator: \<open>report\<close>\<close>

text \<open>
  Lines 140-141 and 169-170, and the list of line 179. In a \<^verbatim>\<open>dict\<close> every key occurs
  once, so running over the pairs is running over the keys \<open>k\<close> with \<open>d[k]\<close>.
\<close>

definition count_yes :: "definitions list \<Rightarrow> nat" where
  "count_yes defs = length [v. d \<leftarrow> defs, (k, v) \<leftarrow> d, v]"

definition count_no :: "definitions list \<Rightarrow> nat" where
  "count_no defs = length [v. d \<leftarrow> defs, (k, v) \<leftarrow> d, \<not> v]"

definition undocumented :: "definitions list \<Rightarrow> string option list" where
  "undocumented defs = [k. d \<leftarrow> defs, (k, v) \<leftarrow> d, \<not> v]"

text \<open>Lines 135-142.\<close>

definition get_coverage :: "files \<Rightarrow> string \<Rightarrow> error + pynum" where
  "get_coverage files f =
     (case map_of files f of
        None \<Rightarrow> Inl KeyError
      | Some defs \<Rightarrow>
          if defs = [] then Inr (PInt 100)
          else py_percent (count_yes defs) (count_yes defs + count_no defs))"

text \<open>The number that \<^verbatim>\<open>file_cmp\<close> compares (lines 144-148).\<close>

definition cov_key :: "files \<Rightarrow> string \<Rightarrow> rat" where
  "cov_key files f = (case get_coverage files f of Inr c \<Rightarrow> num_val c | Inl e \<Rightarrow> 0)"

text \<open>
  Lines 151-152. \<^verbatim>\<open>sorted\<close> is a stable sort, and \<^verbatim>\<open>file_cmp\<close> orders by the coverage
  alone, so the sorted list is the one \<open>sort_key\<close> gives. With two keys or more every
  key is compared, and a \<^verbatim>\<open>get_coverage\<close> that raises ends the sort; with fewer no
  comparison is made. Then the list is reversed.
\<close>

definition files_sorted :: "files \<Rightarrow> error + string list" where
  "files_sorted files =
     (let keys = map fst files
      in case filter isl (map (get_coverage files) keys) of
           Inl e # _ \<Rightarrow> if 2 \<le> length keys then Inl e else Inr (rev (sort_key (cov_key files) keys))
         | _ \<Rightarrow> Inr (rev (sort_key (cov_key files) keys)))"

text \<open>Lines 157-161: \<^verbatim>\<open>exclude_dir in f\<close> is the substring test.\<close>

definition is_excluded :: "string list \<Rightarrow> string \<Rightarrow> bool" where
  "is_excluded exclude_dirs f = list_ex (\<lambda>exclude_dir. sublist exclude_dir f) exclude_dirs"

text \<open>
  Line 180, \<^verbatim>\<open>defs_sorted.sort()\<close>: strings compare by code point; comparing with
  \<open>None\<close> raises TypeError, which happens as soon as the list has two elements.
\<close>

definition list_sort :: "string option list \<Rightarrow> error + string option list" where
  "list_sort xs = (if 2 \<le> length xs \<and> None \<in> set xs then Inl TypeError else Inr (sort xs))"

text \<open>
  What the program prints, one constructor per \<^verbatim>\<open>print\<close> call: the line of a file
  with its truncated percentage, path, documented count and total (line 176), an
  indented identifier (line 182), the empty line (186) and the summary (187).
\<close>

datatype line =
    FileLine int string nat nat
  | SymLine "string option"
  | BlankLine
  | TotalLine int

record report_state =
  printed :: "line list"
  total_yes :: nat
  total_no :: nat

text \<open>
  The loop of lines 156-182 over \<open>files_sorted\<close>. The second component is the exception
  that ended the loop, if one did; what was printed before it stays printed.
\<close>

fun report_loop ::
  "files \<Rightarrow> string list \<Rightarrow> string list \<Rightarrow> report_state \<Rightarrow> report_state \<times> error option" where
  "report_loop files exclude_dirs [] st = (st, None)"
| "report_loop files exclude_dirs (f # fs) st =
     (if is_excluded exclude_dirs f then report_loop files exclude_dirs fs st
      else (case map_of files f of
              None \<Rightarrow> (st, Some KeyError)
            | Some defs \<Rightarrow>
                if defs = [] then report_loop files exclude_dirs fs st
                else (let doc_yes = count_yes defs; doc_no = count_no defs
                      in case py_percent doc_yes (doc_yes + doc_no) of
                           Inl e \<Rightarrow> (st, Some e)
                         | Inr doc_per \<Rightarrow>
                             (let st1 = st\<lparr>total_yes := total_yes st + doc_yes,
                                            total_no := total_no st + doc_no,
                                            printed := printed st @
                                              [FileLine (py_int doc_per) f doc_yes (doc_yes + doc_no)]\<rparr>
                              in case list_sort (undocumented defs) of
                                   Inl e \<Rightarrow> (st1, Some e)
                                 | Inr defs_sorted \<Rightarrow>
                                     report_loop files exclude_dirs fs
                                       (st1\<lparr>printed := printed st1 @ map SymLine defs_sorted\<rparr>)))))"

text \<open>
  Lines 134-188. The result is what was printed and either the exception that escaped or
  the returned verdict. In line 188 the tuple is built first, so the subtraction is
  evaluated whichever element is picked.
\<close>

definition report :: "namespace \<Rightarrow> files \<Rightarrow> string list \<Rightarrow> line list \<times> (error + pynum)" where
  "report ns files exclude_dirs =
     (case files_sorted files of
        Inl e \<Rightarrow> ([], Inl e)
      | Inr fs \<Rightarrow>
          (case report_loop files exclude_dirs fs \<lparr>printed = [], total_yes = 0, total_no = 0\<rparr> of
             (st, Some e) \<Rightarrow> (printed st, Inl e)
           | (st, None) \<Rightarrow>
               (let total_all = total_yes st + total_no st
                in case int_truediv (total_yes st * 100) total_all of
                     Inl e \<Rightarrow> (printed st, Inl e)
                   | Inr total_per \<Rightarrow>
                       (let out = printed st @ [BlankLine, TotalLine (py_int total_per)]
                        in case int_sub_float (threshold ns) (num_val total_per) of
                             Inl e \<Rightarrow> (out, Inl e)
                           | Inr deficit \<Rightarrow>
                               (out, Inr (if of_int (threshold ns) < num_val total_per
                                          then PInt 0 else PFloat deficit))))))"

section \<open>The program: \<open>main\<close>\<close>

text \<open>
  Lines 191-226: what was printed, and how \<^verbatim>\<open>main\<close> ended: it returned, or an
  exception left it (\<^verbatim>\<open>sys.exit(err)\<close> raises \<^verbatim>\<open>SystemExit(err)\<close>).
\<close>

definition main :: "namespace \<Rightarrow> filesystem \<Rightarrow> line list \<times> (error + unit)" where
  "main ns fs =
     (case parse ns fs (dir ns) of
        Inl e \<Rightarrow> ([], Inl e)
      | Inr files \<Rightarrow>
          (case report ns files (excludedirs ns) of
             (out, Inl e) \<Rightarrow> (out, Inl e)
           | (out, Inr err) \<Rightarrow>
               if noerror ns then (out, Inr ()) else (out, Inl (SystemExit err))))"

text \<open>
  The exit status of the process. A \<^verbatim>\<open>SystemExit\<close> with an integer exits with it (the
  system keeps its low eight bits); with any other object, a float included, the
  interpreter prints the object to standard error and exits with 1; any other uncaught
  exception prints a traceback and exits with 1.
\<close>

fun exit_status :: "error + unit \<Rightarrow> int" where
  "exit_status (Inr u) = 0"
| "exit_status (Inl (SystemExit (PInt n))) = n mod 256"
| "exit_status (Inl (SystemExit (PFloat x))) = 1"
| "exit_status (Inl e) = 1"

section \<open>Reading the printed report\<close>

text \<open>The paths of the file lines of a report, in the order printed.\<close>

fun file_paths :: "line list \<Rightarrow> string list" where
  "file_paths [] = []"
| "file_paths (FileLine p f y n # ls) = f # file_paths ls"
| "file_paths (l # ls) = file_paths ls"

text \<open>The identifiers printed directly beneath the first file line of path \<open>f\<close>.\<close>

fun leading_syms :: "line list \<Rightarrow> string option list" where
  "leading_syms (SymLine k # ls) = k # leading_syms ls"
| "leading_syms ls = []"

fun printed_below :: "string \<Rightarrow> line list \<Rightarrow> string option list" where
  "printed_below f [] = []"
| "printed_below f (FileLine p g y n # ls) =
     (if g = f then leading_syms ls else printed_below f ls)"
| "printed_below f (l # ls) = printed_below f ls"

text \<open>
  The records of a path, the paths that the loop of \<open>report\<close> does not skip, and the
  lines it prints for one of them: the file line, then the identifiers of line 179 in
  sorted order.
\<close>

definition records_of :: "files \<Rightarrow> string \<Rightarrow> definitions list" where
  "records_of files f = (case map_of files f of Some defs \<Rightarrow> defs | None \<Rightarrow> [])"

definition is_included :: "files \<Rightarrow> string list \<Rightarrow> string \<Rightarrow> bool" where
  "is_included files exclude_dirs f = (\<not> is_excluded exclude_dirs f \<and> records_of files f \<noteq> [])"

definition file_block :: "files \<Rightarrow> string \<Rightarrow> line list" where
  "file_block files f =
     (let defs = records_of files f;
          doc_yes = count_yes defs;
          doc_no = count_no defs
      in FileLine (case py_percent doc_yes (doc_yes + doc_no) of Inr c \<Rightarrow> py_int c | Inl e \<Rightarrow> 0)
           f doc_yes (doc_yes + doc_no)
         # map SymLine (sort (undocumented defs)))"

section \<open>Example inputs\<close>

text \<open>The command line \<^verbatim>\<open>doxy-coverage.py xml\<close>, with the defaults of \<^verbatim>\<open>main\<close>.\<close>

definition default_ns :: namespace where
  "default_ns = \<lparr>dir = ''xml'', noerror = False, threshold = 80, excludedirs = []\<rparr>"

text \<open>Two member definitions: a static function and one that is not static.\<close>

definition static_fn_node :: xml where
  "static_fn_node =
     Element ''memberdef'' [(''kind'', ''function''), (''static'', ''yes'')] None
       [Element ''name'' [] (Some ''helper'') []]"

definition plain_fn_node :: xml where
  "plain_fn_node =
     Element ''memberdef'' [(''kind'', ''function''), (''static'', ''no'')] None
       [Element ''name'' [] (Some ''api'') []]"

text \<open>
  A table with three paths, inserted in the order 10\%, 90\%, 50\% coverage: one of ten
  symbols documented, nine of ten, one of two.
\<close>

definition ten_defs :: definitions where
  "ten_defs = (Some ''a'', True) # map (\<lambda>c. (Some [c], False)) ''bcdefghij''"

definition ninety_defs :: definitions where
  "ninety_defs = (Some ''a'', False) # map (\<lambda>c. (Some [c], True)) ''bcdefghij''"

definition fifty_defs :: definitions where
  "fifty_defs = [(Some ''a'', True), (Some ''b'', False)]"

definition coverage_10_90_50 :: files where
  "coverage_10_90_50 =
     [(''ten.c'', [ten_defs]), (''ninety.c'', [ninety_defs]), (''fifty.c'', [fifty_defs])]"

text \<open>A path with two records, each with the same undocumented identifier.\<close>

definition twice_undocumented :: files where
  "twice_undocumented = [(''a.c'', [[(Some ''f'', False)], [(Some ''f'', False)]])]"

text \<open>
  Member definitions that differ in how they are named: with an empty \<open>definition\<close>
  element beside a name and an id; with a signature and a name; with a name only; with
  an id only.
\<close>

definition empty_signature_node :: xml where
  "empty_signature_node =
     Element ''memberdef'' [(''kind'', ''variable''), (''id'', ''a_8c_1'')] None
       [Element ''definition'' [] None [],
        Element ''name'' [] (Some ''counter'') []]"

definition signature_node :: xml where
  "signature_node =
     Element ''memberdef'' [(''kind'', ''variable''), (''id'', ''a_8c_2'')] None
       [Element ''definition'' [] (Some ''int ns::counter'') [],
        Element ''name'' [] (Some ''counter'') []]"

definition name_only_node :: xml where
  "name_only_node =
     Element ''memberdef'' [(''kind'', ''define''), (''id'', ''a_8c_3'')] None
       [Element ''name'' [] (Some ''LIMIT'') []]"

definition id_only_node :: xml where
  "id_only_node = Element ''memberdef'' [(''kind'', ''variable''), (''id'', ''a_8c_4'')] None []"

text \<open>
  Doxygen output in small: a member definition with a signature, a name, a brief
  description (with a paragraph when documented) and a location; a compound document
  around a list of members; an index of compounds given by \<open>refid\<close> and \<open>kind\<close>.
\<close>

definition member_node :: "string \<Rightarrow> string \<Rightarrow> bool \<Rightarrow> xml" where
  "member_node nm src has_doc =
     Element ''memberdef'' [(''kind'', ''function''), (''id'', ''m_'' @ nm), (''static'', ''no'')] None
       [Element ''definition'' [] (Some (''int '' @ nm)) [],
        Element ''name'' [] (Some nm) [],
        Element ''briefdescription'' [] None
          (if has_doc then [Element ''para'' [] (Some ''Text.'') []] else []),
        Element ''location'' [(''file'', src)] None []]"

definition compound_doc :: "xml list \<Rightarrow> xml" where
  "compound_doc members =
     Element ''doxygen'' [] None
       [Element ''compounddef'' [] None [Element ''sectiondef'' [] None members]]"

definition index_doc :: "(string \<times> string) list \<Rightarrow> xml" where
  "index_doc entries =
     Element ''doxygenindex'' [] None
       (map (\<lambda>(refid, kind). Element ''compound'' [(''refid'', refid), (''kind'', kind)] None [])
          entries)"

definition a_h_doc :: xml where
  "a_h_doc =
     compound_doc
       [member_node ''f'' ''src/a.h'' True, member_node ''g'' ''src/a.h'' True,
        member_node ''h'' ''src/a.h'' True]"

definition b_c_doc :: xml where
  "b_c_doc =
     compound_doc
       [member_node ''f'' ''src/b.c'' True, member_node ''g'' ''src/b.c'' False,
        member_node ''h'' ''src/b.c'' False, member_node ''i'' ''src/b.c'' False]"

text \<open>
  Three documentation directories: \<open>xml\<close> with group A (3 of 3 documented), a
  directory entry and group B (1 of 4 documented); \<open>full\<close> with group A alone;
  \<open>empty\<close> with an index that lists no compound.
\<close>

definition example_fs :: filesystem where
  "example_fs =
     map_of
       [(''xml/index.xml'',
           Document (index_doc [(''a_8h'', ''file''), (''dir_src'', ''dir''), (''b_8c'', ''file'')])),
        (''xml/a_8h.xml'', Document a_h_doc),
        (''xml/b_8c.xml'', Document b_c_doc),
        (''full/index.xml'', Document (index_doc [(''a_8h'', ''file'')])),
        (''full/a_8h.xml'', Document a_h_doc),
        (''empty/index.xml'', Document (index_doc []))]"


text \<open>The tables that \<open>parse\<close> builds from \<open>xml\<close> and from \<open>full\<close>.\<close>

definition a_h_defs :: definitions where
  "a_h_defs = [(Some ''int f'', True), (Some ''int g'', True), (Some ''int h'', True)]"

definition b_c_defs :: definitions where
  "b_c_defs =
     [(Some ''int f'', True), (Some ''int g'', False), (Some ''int h'', False),
      (Some ''int i'', False)]"

definition xml_files :: files where
  "xml_files = [(''src/a.h'', [a_h_defs]), (''src/b.c'', [b_c_defs])]"

definition full_files :: files where
  "full_files = [(''src/a.h'', [a_h_defs])]"

section \<open>The float arithmetic\<close>

text \<open>
  \<open>ilog2\<close> is the binary exponent, and \<open>fl\<close> moves a number by at most half a unit in
  the last place.
\<close>

lemma bitlen_power_bounds:
  assumes "0 < n"
  shows "(2::rat) powi (bitlen n - 1) \<le> of_int n" and "of_int n < (2::rat) powi bitlen n"
proof -
  from bitlen_bounds [OF assms]
  have lo: "2 ^ nat (bitlen n - 1) \<le> n" and hi: "n < 2 ^ nat (bitlen n)" by simp_all
  have b: "1 \<le> bitlen n" using assms by (simp add: bitlen_alt_def)
  from lo have "rat_of_int (2 ^ nat (bitlen n - 1)) \<le> rat_of_int n" by (simp only: of_int_le_iff)
  then show "(2::rat) powi (bitlen n - 1) \<le> of_int n"
    using b by (simp add: power_int_def)
  from hi have "rat_of_int n < rat_of_int (2 ^ nat (bitlen n))" by (simp only: of_int_less_iff)
  then show "of_int n < (2::rat) powi bitlen n"
    using b by (simp add: power_int_def)
qed

lemma ilog2_bounds:
  assumes "q \<noteq> 0"
  shows "2 powi ilog2 q \<le> \<bar>q\<bar> \<and> \<bar>q\<bar> < 2 powi (ilog2 q + 1)"
proof -
  obtain n d where nd: "quotient_of \<bar>q\<bar> = (n, d)" by (cases "quotient_of \<bar>q\<bar>")
  then have d: "0 < d" by (rule quotient_of_denom_pos)
  from nd have q: "\<bar>q\<bar> = of_int n / of_int d" by (rule quotient_of_div)
  from assms have "0 < \<bar>q\<bar>" by simp
  with q d have n: "0 < n" by (simp add: zero_less_divide_iff)
  define k where "k = bitlen n - bitlen d"
  note bn = bitlen_power_bounds [OF n] and bd = bitlen_power_bounds [OF d]
  have dpos: "(0::rat) < of_int d" using d by simp
  have p2: "\<And>i. (0::rat) < 2 powi i" by simp
  have "2 powi (k - 1) * rat_of_int d < 2 powi (k - 1) * 2 powi bitlen d"
    using bd(2) p2 by (simp only: mult_less_cancel_left_pos)
  also have "\<dots> = 2 powi (bitlen n - 1)"
    by (simp add: k_def power_int_add [symmetric])
  also have "\<dots> \<le> of_int n" by (rule bn(1))
  finally have lo: "2 powi (k - 1) < \<bar>q\<bar>"
    using dpos by (simp add: q pos_less_divide_eq)
  have "rat_of_int n < 2 powi bitlen n" by (rule bn(2))
  also have "\<dots> = 2 powi (k + 1) * 2 powi (bitlen d - 1)"
    by (simp add: k_def power_int_add [symmetric])
  also have "\<dots> \<le> 2 powi (k + 1) * of_int d"
    using bd(1) p2 by (simp only: mult_le_cancel_left_pos)
  finally have hi: "\<bar>q\<bar> < 2 powi (k + 1)"
    using dpos by (simp add: q pos_divide_less_eq)
  have e: "ilog2 q = (if 2 powi k \<le> \<bar>q\<bar> then k else k - 1)"
    by (simp add: ilog2_def nd k_def Let_def)
  show ?thesis
  proof (cases "2 powi k \<le> \<bar>q\<bar>")
    case True
    with hi e show ?thesis by simp
  next
    case False
    with lo e show ?thesis by simp
  qed
qed


lemma round_half_even_nearest: "\<bar>rat_of_int (round_half_even x) - x\<bar> \<le> 1 / 2"
proof -
  have "rat_of_int \<lfloor>x\<rfloor> \<le> x" and "x < rat_of_int \<lfloor>x\<rfloor> + 1"
    by linarith+
  then show ?thesis
    by (auto simp: round_half_even_def Let_def abs_le_iff)
qed

lemma fl_nearest:
  assumes "q \<noteq> 0"
  shows "\<bar>fl q - q\<bar> \<le> 2 powi (max (ilog2 q) (- 1022) - 52) / 2"
proof -
  define u :: rat where "u = 2 powi (max (ilog2 q) (- 1022) - 52)"
  have u: "0 < u" by (simp add: u_def)
  have "fl q - q = (rat_of_int (round_half_even (q / u)) - q / u) * u"
    using assms u by (simp add: fl_def u_def [symmetric] Let_def field_simps)
  then have "\<bar>fl q - q\<bar> = \<bar>rat_of_int (round_half_even (q / u)) - q / u\<bar> * u"
    using u by (simp add: abs_mult)
  also have "\<dots> \<le> 1 / 2 * u"
    using round_half_even_nearest [of "q / u"] u by (simp only: mult_le_cancel_right_pos)
  finally show ?thesis by (simp add: u_def)
qed

text \<open>
  An integer below \<open>2 ^ 53\<close> in absolute value is a double, so rounding leaves it as it
  is; a percentage that is a whole number is computed exactly.
\<close>

lemma round_half_even_of_int: "round_half_even (of_int m) = m"
  by (simp add: round_half_even_def)

lemma bitlen_one: "bitlen 1 = 1"
  by (subst compute_bitlen) simp

lemma ilog2_of_int_less:
  assumes "n \<noteq> 0" and "\<bar>n\<bar> < 2 ^ N"
  shows "ilog2 (of_int n) < int N"
proof -
  have pos: "0 < \<bar>n\<bar>" using assms(1) by simp
  from bitlen_bounds [OF pos] have "2 ^ nat (bitlen \<bar>n\<bar> - 1) \<le> \<bar>n\<bar>" by simp
  with assms(2) have "(2::int) ^ nat (bitlen \<bar>n\<bar> - 1) < 2 ^ N" by linarith
  then have "nat (bitlen \<bar>n\<bar> - 1) < N" by simp
  then have b: "bitlen \<bar>n\<bar> - 1 < int N" by linarith
  have "\<bar>rat_of_int n\<bar> = rat_of_int \<bar>n\<bar>" by simp
  then have q: "quotient_of \<bar>rat_of_int n\<bar> = (\<bar>n\<bar>, 1)"
    by (simp only: quotient_of_rat_of_int)
  have "ilog2 (of_int n) \<le> bitlen \<bar>n\<bar> - 1"
    unfolding ilog2_def q by (simp add: bitlen_one Let_def)
  with b show ?thesis by linarith
qed


lemma fl_of_int_exact:
  assumes "\<bar>n\<bar> < 2 ^ 53"
  shows "fl (of_int n) = of_int n"
proof (cases "n = 0")
  case True
  then show ?thesis by (simp add: fl_def)
next
  case False
  from ilog2_of_int_less [OF False assms] have e: "ilog2 (rat_of_int n) \<le> 52" by simp
  define j where "j = nat (52 - max (ilog2 (rat_of_int n)) (- 1022))"
  have j: "max (ilog2 (rat_of_int n)) (- 1022) - 52 = - int j"
    using e by (simp add: j_def)
  have u: "(2::rat) powi (max (ilog2 (rat_of_int n)) (- 1022) - 52) = 1 / 2 ^ j"
    unfolding j by (simp add: power_int_minus field_simps)
  have "rat_of_int n / (1 / 2 ^ j) = rat_of_int (n * 2 ^ j)" by simp
  then have r: "round_half_even (rat_of_int n / (1 / 2 ^ j)) = n * 2 ^ j"
    by (simp only: round_half_even_of_int)
  have "fl (rat_of_int n) = rat_of_int (round_half_even (rat_of_int n / (1 / 2 ^ j))) * (1 / 2 ^ j)"
    using False unfolding fl_def u by (simp add: Let_def)
  also have "\<dots> = rat_of_int n" unfolding r by simp
  finally show ?thesis .
qed


lemma fl_of_nat_exact: "n < 2 ^ 53 \<Longrightarrow> fl (of_nat n) = of_nat n"
  using fl_of_int_exact [of "int n"] by simp

lemma fl_numeral_exact: "numeral w < (2::int) ^ 53 \<Longrightarrow> fl (numeral w) = numeral w"
  using fl_of_int_exact [of "numeral w"] by simp

lemma fl_100: "fl 100 = 100"
  by (simp add: fl_numeral_exact)

lemma py_percent_whole:
  assumes "0 < doc_all" and "doc_yes \<le> doc_all" and "doc_all < 2 ^ 40"
    and "doc_yes * 100 = p * doc_all"
  shows "py_percent doc_yes doc_all = Inr (PFloat (of_nat p))"
proof -
  have "doc_all < 2 ^ 53"
    using assms(3) by (rule less_trans) simp
  then have a: "fl (rat_of_nat doc_all) = rat_of_nat doc_all"
    by (rule fl_of_nat_exact)
  have "doc_yes < 2 ^ 53"
    using assms(2) \<open>doc_all < 2 ^ 53\<close> by (rule le_less_trans)
  then have y: "fl (rat_of_nat doc_yes) = rat_of_nat doc_yes"
    by (rule fl_of_nat_exact)
  have "doc_yes * 100 < 2 ^ 40 * 100" using assms(2,3) by simp
  also have "\<dots> < (2::nat) ^ 53" by simp
  finally have "fl (rat_of_nat (doc_yes * 100)) = rat_of_nat (doc_yes * 100)"
    by (rule fl_of_nat_exact)
  moreover have "rat_of_nat doc_yes * 100 = rat_of_nat (doc_yes * 100)" by simp
  ultimately have m: "fl (rat_of_nat doc_yes * 100) = rat_of_nat (p * doc_all)"
    by (simp only: assms(4))
  have "doc_yes * 100 \<le> doc_all * 100"
    using assms(2) by (rule mult_le_mono1)
  then have "p * doc_all \<le> 100 * doc_all"
    by (simp only: assms(4) mult.commute [of doc_all 100])
  then have "p \<le> 100" using assms(1) by simp
  then have "p < 2 ^ 53" by (rule le_less_trans) simp
  then have p: "fl (rat_of_nat p) = rat_of_nat p" by (rule fl_of_nat_exact)
  have "rat_of_nat (p * doc_all) / rat_of_nat doc_all = rat_of_nat p"
    using assms(1) by simp
  then show ?thesis
    using assms(1) by (simp add: py_percent_def y a m p)
qed

lemma int_truediv_whole:
  assumes "0 < b" and "a = p * b" and "p < 2 ^ 53"
  shows "int_truediv a b = Inr (PFloat (of_nat p))"
  using assms by (simp add: int_truediv_def fl_of_nat_exact)

lemma float_of_int_exact:
  assumes "\<bar>n\<bar> < 2 ^ 53"
  shows "float_of_int n = Inr (of_int n)"
proof -
  have "rat_of_int \<bar>n\<bar> < rat_of_int (2 ^ 53)"
    using assms by (simp only: of_int_less_iff)
  also have "\<dots> < 2 ^ 1024" by simp
  finally have "\<not> 2 ^ 1024 \<le> \<bar>rat_of_int n\<bar>" by simp
  then show ?thesis
    by (simp add: float_of_int_def fl_of_int_exact [OF assms])
qed

lemma int_sub_float_exact:
  assumes "\<bar>n\<bar> < 2 ^ 53"
  shows "int_sub_float n x = Inr (fl (of_int n - x))"
  by (simp add: int_sub_float_def float_of_int_exact [OF assms])


section \<open>The extractor's filter\<close>

lemma member_step_skip: "is_static_function m \<Longrightarrow> member_step m st = st"
  by (simp add: member_step_def)

lemma member_step_counted:
  "\<not> is_static_function m \<Longrightarrow>
     map_of (snd (member_step m st)) (member_name m) = Some (documented m)"
  by (simp add: member_step_def update_conv')

lemma fold_member_step_filter:
  "fold member_step ms st = fold member_step (filter (\<lambda>m. \<not> is_static_function m) ms) st"
  by (induction ms arbitrary: st) (simp_all add: member_step_skip)

lemma fold_member_step_keys:
  "fst ` set (snd (fold member_step ms st)) =
   fst ` set (snd st) \<union> member_name ` {m \<in> set ms. \<not> is_static_function m}"
proof (induction ms arbitrary: st)
  case Nil
  show ?case by simp
next
  case (Cons m ms)
  show ?case
  proof (cases "is_static_function m")
    case True
    with Cons [of st] show ?thesis by (auto simp: member_step_skip)
  next
    case False
    then have "fst ` set (snd (member_step m st)) = insert (member_name m) (fst ` set (snd st))"
      by (simp add: member_step_def dom_update)
    with Cons [of "member_step m st"] False show ?thesis by auto
  qed
qed

lemma parse_tree_keys:
  "fst ` set (snd (parse_tree fullpath tree)) =
   member_name ` {m \<in> set (findall_memberdef tree). \<not> is_static_function m}"
  by (simp add: parse_tree_def Let_def fold_member_step_keys)

lemma find_snoc:
  "find P (xs @ [x]) = (case find P xs of Some y \<Rightarrow> Some y | None \<Rightarrow> if P x then Some x else None)"
  by (induction xs) simp_all

lemma map_of_fold_member_step:
  "map_of (snd (fold member_step ms st)) k =
     (case find (\<lambda>m. member_name m = k) (rev (filter (\<lambda>m. \<not> is_static_function m) ms)) of
        Some m \<Rightarrow> Some (documented m)
      | None \<Rightarrow> map_of (snd st) k)"
proof (induction ms arbitrary: st)
  case Nil
  show ?case by simp
next
  case (Cons m ms)
  show ?case
  proof (cases "is_static_function m")
    case True
    with Cons [of st] show ?thesis by (simp add: member_step_skip)
  next
    case False
    then have "map_of (snd (member_step m st)) k =
        (if member_name m = k then Some (documented m) else map_of (snd st) k)"
      by (simp add: member_step_def update_conv')
    with Cons [of "member_step m st"] False show ?thesis
      by (simp add: find_snoc split: option.splits)
  qed
qed

lemma distinct_fold_member_step:
  "distinct (map fst (snd st)) \<Longrightarrow> distinct (map fst (snd (fold member_step ms st)))"
proof (induction ms arbitrary: st)
  case Nil
  then show ?case by simp
next
  case (Cons m ms)
  from Cons.prems have "distinct (map fst (snd (member_step m st)))"
    by (simp add: member_step_def distinct_update)
  from Cons.IH [OF this] show ?case by simp
qed

lemma map_of_parse_tree:
  "map_of (snd (parse_tree fullpath tree)) k =
     map_option documented
       (find (\<lambda>m. member_name m = k)
          (rev (filter (\<lambda>m. \<not> is_static_function m) (findall_memberdef tree))))"
  by (simp add: parse_tree_def Let_def map_of_fold_member_step split: option.splits)

lemma distinct_parse_tree: "distinct (map fst (snd (parse_tree fullpath tree)))"
  by (simp add: parse_tree_def Let_def distinct_fold_member_step)

lemma length_parse_tree:
  "length (snd (parse_tree fullpath tree)) =
   card (member_name ` {m \<in> set (findall_memberdef tree). \<not> is_static_function m})"
proof -
  have "length (snd (parse_tree fullpath tree)) = length (map fst (snd (parse_tree fullpath tree)))"
    by simp
  also have "\<dots> = card (set (map fst (snd (parse_tree fullpath tree))))"
    by (rule distinct_card [symmetric]) (rule distinct_parse_tree)
  also have "\<dots> = card (member_name ` {m \<in> set (findall_memberdef tree). \<not> is_static_function m})"
    by (simp add: parse_tree_keys)
  finally show ?thesis .
qed

lemma parse_tree_cong:
  assumes "filter (\<lambda>m. \<not> is_static_function m) (findall_memberdef tree) =
           filter (\<lambda>m. \<not> is_static_function m) (findall_memberdef tree')"
  shows "parse_tree fullpath tree = parse_tree fullpath tree'"
proof -
  have "fold member_step (findall_memberdef tree) (None, []) =
        fold member_step (findall_memberdef tree') (None, [])"
    by (simp only: fold_member_step_filter [of "findall_memberdef tree"]
        fold_member_step_filter [of "findall_memberdef tree'"] assms)
  then show ?thesis by (simp add: parse_tree_def)
qed

lemma find_last_agree:
  assumes "m \<in> set xs" and "P m" and "\<forall>m'\<in>set xs. P m' \<longrightarrow> f m' = f m"
  shows "map_option f (find P xs) = Some (f m)"
proof (cases "find P xs")
  case None
  with assms(1,2) show ?thesis by (auto simp: find_None_iff)
next
  case (Some y)
  then have "y \<in> set xs" "P y" by (auto simp: find_Some_iff)
  with assms(3) Some show ?thesis by simp
qed

text \<open>
  C5. In the mapping that the extractor returns for a document, the identifiers are
  exactly those of the member definitions that are not static functions (\<open>kind\<close>
  \<open>function\<close> with \<open>static\<close> \<open>yes\<close>), each once, and under an identifier stands
  the documented flag of the last such member that has it. A static function is skipped
  entirely: two documents whose members agree apart from static functions give the same
  result, source file included. Every other member definition is counted: its
  identifier has an entry, and the entry is its own flag unless another member of the
  same identifier has a different one. Step by step: a member definition leaves the
  extractor's state as it was, whatever that state is, exactly when it is a static
  function; after the step of any other, the mapping holds its flag under its
  identifier; and the state after a sequence of member definitions is the state after
  the same sequence without the static functions.
\<close>

theorem static_function_filter:
  "map_of (snd (parse_tree fullpath tree)) k =
     map_option documented
       (find (\<lambda>m. member_name m = k)
          (rev (filter (\<lambda>m. \<not> (get m ''kind'' = Some ''function'' \<and>
                               get m ''static'' = Some ''yes''))
                  (findall_memberdef tree)))) \<and>
   (fs fullpath = Some (Document tree) \<longrightarrow>
      parse_file fs fullpath = Inr (parse_tree fullpath tree)) \<and>
   fst ` set (snd (parse_tree fullpath tree)) =
     member_name ` {m \<in> set (findall_memberdef tree).
                     \<not> (get m ''kind'' = Some ''function'' \<and> get m ''static'' = Some ''yes'')} \<and>
   distinct (map fst (snd (parse_tree fullpath tree))) \<and>
   length (snd (parse_tree fullpath tree)) =
     card (member_name ` {m \<in> set (findall_memberdef tree).
                           \<not> (get m ''kind'' = Some ''function'' \<and> get m ''static'' = Some ''yes'')}) \<and>
   (filter (\<lambda>m. \<not> (get m ''kind'' = Some ''function'' \<and> get m ''static'' = Some ''yes''))
      (findall_memberdef tree) =
    filter (\<lambda>m. \<not> (get m ''kind'' = Some ''function'' \<and> get m ''static'' = Some ''yes''))
      (findall_memberdef tree') \<longrightarrow>
      parse_tree fullpath tree = parse_tree fullpath tree') \<and>
   (m \<in> set (findall_memberdef tree) \<and>
    \<not> (get m ''kind'' = Some ''function'' \<and> get m ''static'' = Some ''yes'') \<longrightarrow>
      member_name m \<in> fst ` set (snd (parse_tree fullpath tree)) \<and>
      ((\<forall>m'\<in>set (findall_memberdef tree).
          \<not> (get m' ''kind'' = Some ''function'' \<and> get m' ''static'' = Some ''yes'') \<and>
          member_name m' = member_name m \<longrightarrow> documented m' = documented m) \<longrightarrow>
       map_of (snd (parse_tree fullpath tree)) (member_name m) = Some (documented m))) \<and>
   ((\<forall>st. member_step m st = st) \<longleftrightarrow>
      (get m ''kind'' = Some ''function'' \<and> get m ''static'' = Some ''yes'')) \<and>
   (\<not> (get m ''kind'' = Some ''function'' \<and> get m ''static'' = Some ''yes'') \<longrightarrow>
      (\<forall>st. map_of (snd (member_step m st)) (member_name m) = Some (documented m))) \<and>
   fold member_step ms st0 =
     fold member_step
       (filter (\<lambda>m. \<not> (get m ''kind'' = Some ''function'' \<and> get m ''static'' = Some ''yes'')) ms) st0"
proof -
  have s: "(\<lambda>m. \<not> (get m ''kind'' = Some ''function'' \<and> get m ''static'' = Some ''yes'')) =
           (\<lambda>m. \<not> is_static_function m)"
    by (simp add: is_static_function_def)
  have s': "(get m ''kind'' = Some ''function'' \<and> get m ''static'' = Some ''yes'') =
            is_static_function m" for m
    by (simp add: is_static_function_def)
  have 1: "map_of (snd (parse_tree fullpath tree)) k =
     map_option documented
       (find (\<lambda>m. member_name m = k)
          (rev (filter (\<lambda>m. \<not> is_static_function m) (findall_memberdef tree))))"
    by (rule map_of_parse_tree)
  have 0: "fs fullpath = Some (Document tree) \<longrightarrow>
      parse_file fs fullpath = Inr (parse_tree fullpath tree)"
    by (simp add: parse_file_def)
  have 2: "fst ` set (snd (parse_tree fullpath tree)) =
     member_name ` {m \<in> set (findall_memberdef tree). \<not> is_static_function m}"
    by (rule parse_tree_keys)
  have 3: "distinct (map fst (snd (parse_tree fullpath tree)))"
    by (rule distinct_parse_tree)
  have 4: "length (snd (parse_tree fullpath tree)) =
     card (member_name ` {m \<in> set (findall_memberdef tree). \<not> is_static_function m})"
    by (rule length_parse_tree)
  have 5: "filter (\<lambda>m. \<not> is_static_function m) (findall_memberdef tree) =
      filter (\<lambda>m. \<not> is_static_function m) (findall_memberdef tree') \<longrightarrow>
      parse_tree fullpath tree = parse_tree fullpath tree'"
    by (rule impI) (rule parse_tree_cong)
  have 6: "m \<in> set (findall_memberdef tree) \<and> \<not> is_static_function m \<longrightarrow>
      member_name m \<in> fst ` set (snd (parse_tree fullpath tree)) \<and>
      ((\<forall>m'\<in>set (findall_memberdef tree).
          \<not> is_static_function m' \<and> member_name m' = member_name m \<longrightarrow>
          documented m' = documented m) \<longrightarrow>
       map_of (snd (parse_tree fullpath tree)) (member_name m) = Some (documented m))"
  proof (intro impI conjI)
    assume a: "m \<in> set (findall_memberdef tree) \<and> \<not> is_static_function m"
    then show "member_name m \<in> fst ` set (snd (parse_tree fullpath tree))"
      by (simp add: parse_tree_keys)
    assume b: "\<forall>m'\<in>set (findall_memberdef tree).
          \<not> is_static_function m' \<and> member_name m' = member_name m \<longrightarrow>
          documented m' = documented m"
    let ?xs = "rev (filter (\<lambda>m. \<not> is_static_function m) (findall_memberdef tree))"
    from a have "m \<in> set ?xs" by simp
    moreover have "member_name m = member_name m" ..
    moreover from b have "\<forall>m'\<in>set ?xs. member_name m' = member_name m \<longrightarrow>
        documented m' = documented m" by simp
    ultimately have "map_option documented (find (\<lambda>m'. member_name m' = member_name m) ?xs) =
        Some (documented m)"
      by (rule find_last_agree)
    then show "map_of (snd (parse_tree fullpath tree)) (member_name m) = Some (documented m)"
      by (simp add: map_of_parse_tree)
  qed
  have 7: "(\<forall>st. member_step m st = st) \<longleftrightarrow> is_static_function m"
  proof
    assume fixed: "\<forall>st. member_step m st = st"
    show "is_static_function m"
    proof (rule ccontr)
      assume "\<not> ?thesis"
      then have "snd (member_step m (None, [])) \<noteq> []"
        by (simp add: member_step_def)
      with fixed show False by simp
    qed
  next
    assume "is_static_function m"
    then show "\<forall>st. member_step m st = st"
      by (simp add: member_step_skip)
  qed
  have 8: "\<not> is_static_function m \<longrightarrow>
      (\<forall>st. map_of (snd (member_step m st)) (member_name m) = Some (documented m))"
    using member_step_counted [of m] by simp
  have 9: "fold member_step ms st0 =
     fold member_step (filter (\<lambda>m. \<not> is_static_function m) ms) st0"
    by (rule fold_member_step_filter)
  from 1 0 2 3 4 5 6 7 8 9 show ?thesis
    unfolding s s' by (intro conjI)
qed

lemma static_plain_members:
  "findall_memberdef (compound_doc [static_fn_node, plain_fn_node]) = [static_fn_node, plain_fn_node]"
  "findall_memberdef (compound_doc [plain_fn_node]) = [plain_fn_node]"
  by (simp_all add: findall_memberdef_def findall_child_def compound_doc_def static_fn_node_def
      plain_fn_node_def)

lemma static_plain_attributes:
  "get static_fn_node ''kind'' = Some ''function'' \<and> get static_fn_node ''static'' = Some ''yes''"
  "\<not> (get plain_fn_node ''kind'' = Some ''function'' \<and> get plain_fn_node ''static'' = Some ''yes'')"
  by (simp_all add: static_fn_node_def plain_fn_node_def get_def)

lemma static_plain_names:
  "member_name static_fn_node = Some ''helper''" "member_name plain_fn_node = Some ''api''"
  "documented plain_fn_node = False"
  by (simp_all add: static_fn_node_def plain_fn_node_def member_name_def find_child_def
      findall_child_def documented_def findall_grandchild_def)

theorem static_function_filter_witness:
  "parse_tree ''xml/a_8c.xml'' (compound_doc [static_fn_node, plain_fn_node]) =
     parse_tree ''xml/a_8c.xml'' (compound_doc [plain_fn_node]) \<and>
   snd (parse_tree ''xml/a_8c.xml'' (compound_doc [static_fn_node, plain_fn_node])) =
     [(Some ''api'', False)] \<and>
   map_of (snd (parse_tree ''xml/a_8c.xml'' (compound_doc [static_fn_node, plain_fn_node])))
     (Some ''api'') = Some False \<and>
   map_of (snd (parse_tree ''xml/a_8c.xml'' (compound_doc [static_fn_node, plain_fn_node])))
     (Some ''helper'') = None \<and>
   member_name static_fn_node = Some ''helper'' \<and>
   member_step static_fn_node (None, []) = (None, []) \<and>
   map_of (snd (member_step plain_fn_node (None, []))) (Some ''api'') = Some False \<and>
   fold member_step [static_fn_node, plain_fn_node] (None, []) = (None, [(Some ''api'', False)])"
proof -
  let ?t = "compound_doc [static_fn_node, plain_fn_node]"
  let ?t' = "compound_doc [plain_fn_node]"
  note s = static_plain_attributes
  note n = static_plain_names
  note t = static_function_filter [of "''xml/a_8c.xml''" ?t "Some ''api''"
      "Map.empty" ?t' plain_fn_node "[static_fn_node, plain_fn_node]" "(None, [])"]
  have f: "filter (\<lambda>m. \<not> (get m ''kind'' = Some ''function'' \<and> get m ''static'' = Some ''yes''))
             (findall_memberdef ?t) =
           filter (\<lambda>m. \<not> (get m ''kind'' = Some ''function'' \<and> get m ''static'' = Some ''yes''))
             (findall_memberdef ?t')"
    by (simp add: static_plain_members s)
  from t f have 1: "parse_tree ''xml/a_8c.xml'' ?t = parse_tree ''xml/a_8c.xml'' ?t'"
    by blast
  have a: "plain_fn_node \<in> set (findall_memberdef ?t) \<and>
      \<not> (get plain_fn_node ''kind'' = Some ''function'' \<and> get plain_fn_node ''static'' = Some ''yes'')"
    by (simp add: static_plain_members s)
  have b: "\<forall>m'\<in>set (findall_memberdef ?t).
          \<not> (get m' ''kind'' = Some ''function'' \<and> get m' ''static'' = Some ''yes'') \<and>
          member_name m' = member_name plain_fn_node \<longrightarrow> documented m' = documented plain_fn_node"
    by (simp add: static_plain_members s)
  from t a b have "map_of (snd (parse_tree ''xml/a_8c.xml'' ?t)) (member_name plain_fn_node) =
      Some (documented plain_fn_node)"
    by blast
  then have 2: "map_of (snd (parse_tree ''xml/a_8c.xml'' ?t)) (Some ''api'') = Some False"
    by (simp only: n)
  from t have "fst ` set (snd (parse_tree ''xml/a_8c.xml'' ?t)) =
     member_name ` {m \<in> set (findall_memberdef ?t).
        \<not> (get m ''kind'' = Some ''function'' \<and> get m ''static'' = Some ''yes'')}"
    by blast
  also have "\<dots> = member_name ` set (filter
        (\<lambda>m. \<not> (get m ''kind'' = Some ''function'' \<and> get m ''static'' = Some ''yes''))
        (findall_memberdef ?t))"
    by simp
  also have "filter (\<lambda>m. \<not> (get m ''kind'' = Some ''function'' \<and> get m ''static'' = Some ''yes''))
        (findall_memberdef ?t) = [plain_fn_node]"
    by (simp add: static_plain_members s)
  also have "member_name ` set [plain_fn_node] = {Some ''api''}"
    by (simp add: n)
  finally have k: "fst ` set (snd (parse_tree ''xml/a_8c.xml'' ?t)) = {Some ''api''}" .
  then have "Some ''helper'' \<notin> fst ` set (snd (parse_tree ''xml/a_8c.xml'' ?t))" by simp
  then have 3: "map_of (snd (parse_tree ''xml/a_8c.xml'' ?t)) (Some ''helper'') = None"
    by (simp add: map_of_eq_None_iff)
  have 4: "snd (parse_tree ''xml/a_8c.xml'' ?t) = [(Some ''api'', False)]"
    by code_simp
  from static_function_filter [of _ _ _ _ _ static_fn_node] s(1)
  have 5: "member_step static_fn_node (None, []) = (None, [])" by blast
  from t s(2) have "map_of (snd (member_step plain_fn_node (None, []))) (member_name plain_fn_node) =
      Some (documented plain_fn_node)"
    by blast
  then have 6: "map_of (snd (member_step plain_fn_node (None, []))) (Some ''api'') = Some False"
    by (simp only: n)
  have 7: "fold member_step [static_fn_node, plain_fn_node] (None, []) =
           (None, [(Some ''api'', False)])"
    by code_simp
  from 1 2 3 4 5 6 7 n(1) show ?thesis by (intro conjI)
qed

section \<open>The paths of the file lines\<close>

lemma file_paths_append: "file_paths (xs @ ys) = file_paths xs @ file_paths ys"
  by (induction xs rule: file_paths.induct) simp_all

lemma file_paths_SymLine: "file_paths (map SymLine ks) = []"
  by (induction ks) simp_all

lemma get_coverage_defined:
  "map_of files f = Some defs \<Longrightarrow> defs \<noteq> [] \<Longrightarrow>
   py_percent (count_yes defs) (count_yes defs + count_no defs) = Inr c \<Longrightarrow>
   get_coverage files f = Inr c"
  by (simp add: get_coverage_def)

text \<open>
  The paths the loop prints are a subsequence of the list it runs over; none of them
  is excluded, and the coverage of each is defined.
\<close>

lemma report_loop_paths:
  "\<exists>ps. subseq ps fs \<and>
        (\<forall>f\<in>set ps. \<not> is_excluded ex f \<and> (\<exists>c. get_coverage files f = Inr c)) \<and>
        file_paths (printed (fst (report_loop files ex fs st))) = file_paths (printed st) @ ps"
proof (induction fs arbitrary: st)
  case Nil
  show ?case by simp
next
  case (Cons f fs)
  show ?case
  proof (cases "is_excluded ex f")
    case True
    from Cons.IH [of st] obtain ps where
      "subseq ps fs" and "\<forall>f\<in>set ps. \<not> is_excluded ex f \<and> (\<exists>c. get_coverage files f = Inr c)"
      and "file_paths (printed (fst (report_loop files ex fs st))) = file_paths (printed st) @ ps"
      by blast
    with True show ?thesis by (intro exI [of _ ps]) (simp add: list_emb_Cons)
  next
    case incl: False
    show ?thesis
    proof (cases "map_of files f")
      case None
      with incl show ?thesis by (intro exI [of _ "[]"]) simp
    next
      case (Some defs)
      show ?thesis
      proof (cases "defs = []")
        case True
        from Cons.IH [of st] obtain ps where
          "subseq ps fs" and "\<forall>f\<in>set ps. \<not> is_excluded ex f \<and> (\<exists>c. get_coverage files f = Inr c)"
          and "file_paths (printed (fst (report_loop files ex fs st))) = file_paths (printed st) @ ps"
          by blast
        with incl Some True show ?thesis by (intro exI [of _ ps]) (simp add: list_emb_Cons)
      next
        case nonempty: False
        show ?thesis
        proof (cases "py_percent (count_yes defs) (count_yes defs + count_no defs)")
          case (Inl e)
          with incl Some nonempty show ?thesis by (intro exI [of _ "[]"]) simp
        next
          case (Inr doc_per)
          with Some nonempty have cov: "get_coverage files f = Inr doc_per"
            by (simp add: get_coverage_defined)
          show ?thesis
          proof (cases "list_sort (undocumented defs)")
            case (Inl e)
            with incl Some nonempty Inr cov show ?thesis
              by (intro exI [of _ "[f]"]) (simp add: file_paths_append Let_def)
          next
            case sorted_names: (Inr defs_sorted)
            let ?st = "st\<lparr>total_yes := total_yes st + count_yes defs,
                          total_no := total_no st + count_no defs,
                          printed := printed st @
                            [FileLine (py_int doc_per) f (count_yes defs)
                               (count_yes defs + count_no defs)] @
                            map SymLine defs_sorted\<rparr>"
            from Cons.IH [of ?st] obtain ps where
              ps: "subseq ps fs"
                "\<forall>f\<in>set ps. \<not> is_excluded ex f \<and> (\<exists>c. get_coverage files f = Inr c)"
                "file_paths (printed (fst (report_loop files ex fs ?st))) =
                   file_paths (printed ?st) @ ps"
              by blast
            have "file_paths (printed ?st) = file_paths (printed st) @ [f]"
              by (simp add: file_paths_append file_paths_SymLine)
            with ps incl Some nonempty Inr sorted_names cov show ?thesis
              by (intro exI [of _ "f # ps"]) (simp add: Let_def)
          qed
        qed
      qed
    qed
  qed
qed

lemma files_sorted_descending:
  assumes "files_sorted files = Inr fs"
  shows "sorted_wrt (\<lambda>a b. cov_key files b \<le> cov_key files a) fs"
proof -
  from assms have fs: "fs = rev (sort_key (cov_key files) (map fst files))"
    by (auto simp: files_sorted_def Let_def split: list.splits sum.splits if_splits)
  have "sorted (map (cov_key files) (sort_key (cov_key files) (map fst files)))"
    by (rule sorted_sort_key)
  then have "sorted_wrt (\<lambda>a b. cov_key files a \<le> cov_key files b)
               (sort_key (cov_key files) (map fst files))"
    by (simp add: sorted_map)
  with fs show ?thesis by (simp add: sorted_wrt_rev)
qed

lemma sorted_wrt_subseq: "subseq ys xs \<Longrightarrow> sorted_wrt P xs \<Longrightarrow> sorted_wrt P ys"
proof (induction rule: list_emb.induct)
  case (list_emb_Nil ys)
  show ?case by simp
next
  case (list_emb_Cons xs ys y)
  then show ?case by simp
next
  case (list_emb_Cons2 x y xs ys)
  from list_emb_Cons2.hyps(2) have "set xs \<subseteq> set ys"
    by (auto dest: list_emb_set)
  with list_emb_Cons2 show ?case by auto
qed

lemma report_file_paths:
  assumes "files_sorted files = Inr fs"
  shows "file_paths (fst (report ns files ex)) =
         file_paths (printed (fst (report_loop files ex fs
           \<lparr>printed = [], total_yes = 0, total_no = 0\<rparr>)))"
  using assms
  by (cases "report_loop files ex fs \<lparr>printed = [], total_yes = 0, total_no = 0\<rparr>")
     (auto simp: report_def Let_def file_paths_append split: option.splits sum.splits)

lemma list_sort_strings: "None \<notin> set xs \<Longrightarrow> list_sort xs = Inr (sort xs)"
  by (simp add: list_sort_def)

lemma counts_10_90_50:
  "count_yes [ten_defs] = 1" "count_no [ten_defs] = 9"
  "count_yes [ninety_defs] = 9" "count_no [ninety_defs] = 1"
  "count_yes [fifty_defs] = 1" "count_no [fifty_defs] = 1"
  by (simp_all add: count_yes_def count_no_def ten_defs_def ninety_defs_def fifty_defs_def)

lemma percent_10_90_50:
  "py_percent (count_yes [ten_defs]) (count_yes [ten_defs] + count_no [ten_defs]) = Inr (PFloat 10)"
  "py_percent (count_yes [ninety_defs]) (count_yes [ninety_defs] + count_no [ninety_defs]) = Inr (PFloat 90)"
  "py_percent (count_yes [fifty_defs]) (count_yes [fifty_defs] + count_no [fifty_defs]) = Inr (PFloat 50)"
  unfolding counts_10_90_50
  using py_percent_whole [of "1 + 9" 1 10] py_percent_whole [of "9 + 1" 9 90]
    py_percent_whole [of "1 + 1" 1 50]
  by simp_all

lemma get_coverage_10_90_50:
  "get_coverage coverage_10_90_50 ''ten.c'' = Inr (PFloat 10)"
  "get_coverage coverage_10_90_50 ''ninety.c'' = Inr (PFloat 90)"
  "get_coverage coverage_10_90_50 ''fifty.c'' = Inr (PFloat 50)"
  by (simp_all add: get_coverage_def coverage_10_90_50_def percent_10_90_50)

lemma cov_key_10_90_50:
  "map (cov_key coverage_10_90_50) [''ten.c'', ''ninety.c'', ''fifty.c''] = [10, 90, 50]"
  by (simp add: cov_key_def get_coverage_10_90_50)

lemma files_sorted_10_90_50:
  "files_sorted coverage_10_90_50 = Inr [''ninety.c'', ''fifty.c'', ''ten.c'']"
proof -
  have k: "map fst coverage_10_90_50 = [''ten.c'', ''ninety.c'', ''fifty.c'']"
    by (simp add: coverage_10_90_50_def)
  show ?thesis
    unfolding files_sorted_def k using cov_key_10_90_50
    by (simp add: get_coverage_10_90_50)
qed

lemma names_10_90_50:
  "None \<notin> set (undocumented [ten_defs])" "None \<notin> set (undocumented [ninety_defs])"
  "None \<notin> set (undocumented [fifty_defs])"
  by (simp_all add: undocumented_def ten_defs_def ninety_defs_def fifty_defs_def)

lemma report_10_90_50:
  "file_paths (fst (report default_ns coverage_10_90_50 [])) = [''ninety.c'', ''fifty.c'', ''ten.c'']"
proof -
  have m: "map_of coverage_10_90_50 ''ten.c'' = Some [ten_defs]"
    "map_of coverage_10_90_50 ''ninety.c'' = Some [ninety_defs]"
    "map_of coverage_10_90_50 ''fifty.c'' = Some [fifty_defs]"
    by (simp_all add: coverage_10_90_50_def)
  show ?thesis
    by (simp add: report_def files_sorted_10_90_50 is_excluded_def m percent_10_90_50
        list_sort_strings names_10_90_50 Let_def file_paths_append file_paths_SymLine
        split: prod.splits sum.splits)
qed

section \<open>The loop of \<open>report\<close>, path by path\<close>

lemma list_sort_Inr: "list_sort xs = Inr ys \<Longrightarrow> ys = sort xs"
  by (simp add: list_sort_def split: if_splits)

text \<open>One pass of the loop, case by case.\<close>

lemma report_loop_excluded:
  "is_excluded ex f \<Longrightarrow> report_loop files ex (f # fs) st = report_loop files ex fs st"
  by simp

lemma report_loop_no_records:
  "\<not> is_excluded ex f \<Longrightarrow> map_of files f = Some [] \<Longrightarrow>
   report_loop files ex (f # fs) st = report_loop files ex fs st"
  by simp


lemma report_loop_print:
  assumes "\<not> is_excluded ex f" and "map_of files f = Some defs" and "defs \<noteq> []"
    and "py_percent (count_yes defs) (count_yes defs + count_no defs) = Inr c"
    and "list_sort (undocumented defs) = Inr ks"
  shows "report_loop files ex (f # fs) st =
         report_loop files ex fs
           (st\<lparr>total_yes := total_yes st + count_yes defs,
               total_no := total_no st + count_no defs,
               printed := printed st @ file_block files f\<rparr>)"
proof -
  from assms(5) have ks: "ks = sort (undocumented defs)" by (rule list_sort_Inr)
  have b: "file_block files f =
      FileLine (py_int c) f (count_yes defs) (count_yes defs + count_no defs) # map SymLine ks"
    by (simp add: file_block_def records_of_def assms(2,4) ks Let_def)
  show ?thesis
    using assms by (simp add: b Let_def)
qed

lemma report_loop_closed:
  "report_loop files ex fs st = (st', None) \<Longrightarrow>
   printed st' = printed st @ concat (map (file_block files) (filter (is_included files ex) fs)) \<and>
   total_yes st' = total_yes st +
     sum_list (map (\<lambda>f. count_yes (records_of files f)) (filter (is_included files ex) fs)) \<and>
   total_no st' = total_no st +
     sum_list (map (\<lambda>f. count_no (records_of files f)) (filter (is_included files ex) fs))"
proof (induction fs arbitrary: st)
  case Nil
  then show ?case by simp
next
  case (Cons f fs)
  show ?case
  proof (cases "is_included files ex f")
    case False
    have "report_loop files ex fs st = (st', None)"
    proof (cases "is_excluded ex f")
      case True
      with Cons.prems show ?thesis by (simp add: report_loop_excluded)
    next
      case incl: False
      with False have "records_of files f = []" by (simp add: is_included_def)
      moreover from Cons.prems incl have "map_of files f \<noteq> None"
        by (auto split: option.splits)
      ultimately have "map_of files f = Some []" by (auto simp: records_of_def)
      with Cons.prems incl show ?thesis by (simp add: report_loop_no_records)
    qed
    from Cons.IH [OF this] False show ?thesis by simp
  next
    case True
    then obtain defs where d: "\<not> is_excluded ex f" "map_of files f = Some defs" "defs \<noteq> []"
      by (auto simp: is_included_def records_of_def split: option.splits)
    from Cons.prems d obtain c where
      c: "py_percent (count_yes defs) (count_yes defs + count_no defs) = Inr c"
      by (cases "py_percent (count_yes defs) (count_yes defs + count_no defs)") (auto simp: Let_def)
    from Cons.prems d c obtain ks where ks: "list_sort (undocumented defs) = Inr ks"
      by (cases "list_sort (undocumented defs)") (auto simp: Let_def)
    let ?st = "st\<lparr>total_yes := total_yes st + count_yes defs,
            total_no := total_no st + count_no defs,
            printed := printed st @ file_block files f\<rparr>"
    from Cons.prems have "report_loop files ex fs ?st = (st', None)"
      unfolding report_loop_print [OF d c ks] .
    from Cons.IH [OF this] True d(2) show ?thesis
      by (simp add: records_of_def)
  qed
qed


lemma files_sorted_Inr:
  assumes "files_sorted files = Inr fs"
  shows "fs = rev (sort_key (cov_key files) (map fst files))"
  using assms by (auto simp: files_sorted_def Let_def split: list.splits sum.splits if_splits)

lemma files_sorted_set: "files_sorted files = Inr fs \<Longrightarrow> set fs = fst ` set files"
  by (drule files_sorted_Inr) simp

text \<open>What a returning \<open>report\<close> has gone through.\<close>

lemma report_returns:
  assumes "report ns files ex = (out, Inr v)"
  obtains fs st total_per deficit where
    "files_sorted files = Inr fs"
    "report_loop files ex fs \<lparr>printed = [], total_yes = 0, total_no = 0\<rparr> = (st, None)"
    "int_truediv (total_yes st * 100) (total_yes st + total_no st) = Inr total_per"
    "int_sub_float (threshold ns) (num_val total_per) = Inr deficit"
    "out = printed st @ [BlankLine, TotalLine (py_int total_per)]"
    "v = (if of_int (threshold ns) < num_val total_per then PInt 0 else PFloat deficit)"
proof -
  from assms obtain fs where fs: "files_sorted files = Inr fs"
    by (cases "files_sorted files") (auto simp: report_def)
  obtain st err where loop:
    "report_loop files ex fs \<lparr>printed = [], total_yes = 0, total_no = 0\<rparr> = (st, err)"
    by (cases "report_loop files ex fs \<lparr>printed = [], total_yes = 0, total_no = 0\<rparr>")
  from assms fs loop have err: "err = None"
    by (cases err) (auto simp: report_def)
  from assms fs loop err obtain total_per where
    tp: "int_truediv (total_yes st * 100) (total_yes st + total_no st) = Inr total_per"
    by (cases "int_truediv (total_yes st * 100) (total_yes st + total_no st)")
       (auto simp: report_def Let_def)
  from assms fs loop err tp obtain deficit where
    df: "int_sub_float (threshold ns) (num_val total_per) = Inr deficit"
    by (cases "int_sub_float (threshold ns) (num_val total_per)")
       (auto simp: report_def Let_def)
  from assms fs loop err tp df
  have "out = printed st @ [BlankLine, TotalLine (py_int total_per)]"
    and "v = (if of_int (threshold ns) < num_val total_per then PInt 0 else PFloat deficit)"
    by (auto simp: report_def Let_def)
  with fs loop err tp df that show thesis by blast
qed

lemma report_eval:
  assumes "files_sorted files = Inr fs"
    and "report_loop files ex fs \<lparr>printed = [], total_yes = 0, total_no = 0\<rparr> = (st, None)"
    and "int_truediv (total_yes st * 100) (total_yes st + total_no st) = Inr total_per"
    and "int_sub_float (threshold ns) (num_val total_per) = Inr deficit"
  shows "report ns files ex =
           (printed st @ [BlankLine, TotalLine (py_int total_per)],
            Inr (if of_int (threshold ns) < num_val total_per then PInt 0 else PFloat deficit))"
  using assms by (simp add: report_def)

lemma leading_syms_append: "leading_syms (map SymLine ks @ ls) = ks @ leading_syms ls"
  by (induction ks) simp_all

lemma printed_below_SymLines: "printed_below f (map SymLine ks @ ls) = printed_below f ls"
  by (induction ks) simp_all

lemma leading_syms_blocks:
  "leading_syms (concat (map (file_block files) ps) @ BlankLine # ls) = []"
  by (cases ps) (simp_all add: file_block_def Let_def)

lemma printed_below_blocks:
  "f \<in> set ps \<Longrightarrow>
   printed_below f (concat (map (file_block files) ps) @ BlankLine # ls) =
     sort (undocumented (records_of files f))"
proof (induction ps)
  case Nil
  then show ?case by simp
next
  case (Cons g ps)
  obtain p y n where b: "file_block files g =
      FileLine p g y n # map SymLine (sort (undocumented (records_of files g)))"
    by (simp add: file_block_def Let_def)
  show ?case
  proof (cases "g = f")
    case True
    with b show ?thesis
      by (simp add: leading_syms_append leading_syms_blocks)
  next
    case False
    with Cons b show ?thesis
      by (simp add: printed_below_SymLines)
  qed
qed

lemma count_list_concat:
  "count_list (concat xss) x = sum_list (map (\<lambda>xs. count_list xs x) xss)"
  by (induction xss) simp_all

lemma count_list_undocumented_record:
  "distinct (map fst d) \<Longrightarrow>
   count_list [k. (k, v) \<leftarrow> d, \<not> v] x = (if map_of d x = Some False then 1 else 0)"
proof (induction d)
  case Nil
  show ?case by simp
next
  case (Cons kv d)
  obtain k v where kv: "kv = (k, v)" by (cases kv)
  from Cons.prems kv have "k \<notin> fst ` set d" by simp
  then have "map_of d k = None" by (simp add: map_of_eq_None_iff)
  with Cons kv show ?case by auto
qed

lemma sum_list_indicator: "sum_list (map (\<lambda>x. if P x then 1 else 0) xs) = length (filter P xs)"
  by (induction xs) simp_all

lemma count_list_undocumented:
  assumes "\<forall>d\<in>set defs. distinct (map fst d)"
  shows "count_list (undocumented defs) x = length (filter (\<lambda>d. map_of d x = Some False) defs)"
proof -
  have "count_list (undocumented defs) x =
        sum_list (map (\<lambda>d. count_list [k. (k, v) \<leftarrow> d, \<not> v] x) defs)"
    by (simp add: undocumented_def count_list_concat comp_def)
  also have "\<dots> = sum_list (map (\<lambda>d. if map_of d x = Some False then 1 else 0) defs)"
    using assms by (intro arg_cong [where f = sum_list] map_cong refl)
      (simp add: count_list_undocumented_record)
  also have "\<dots> = length (filter (\<lambda>d. map_of d x = Some False) defs)"
    by (rule sum_list_indicator)
  finally show ?thesis .
qed

lemma count_list_sort: "count_list (sort xs) x = count_list xs x"
proof -
  have "count (mset (sort xs)) x = count (mset xs) x" by simp
  then show ?thesis by (simp only: count_mset)
qed

section \<open>The identifiers beneath a file line\<close>

text \<open>
  C4, as the code has it. When \<open>report\<close> returns, the identifiers printed beneath the
  line of an included path are the list of line 179 in sorted order: the identifiers
  flagged undocumented, record after record, with repetitions kept. So with the keys of
  each record distinct, as in a \<^verbatim>\<open>dict\<close>, an identifier is printed once for every
  contributing record in which it is undocumented.
\<close>

theorem undocumented_identifiers_listed:
  assumes "report ns files exclude_dirs = (out, Inr v)"
    and "map_of files f = Some defs" and "defs \<noteq> []" and "\<not> is_excluded exclude_dirs f"
  shows "printed_below f out = sort (undocumented defs) \<and>
         ((\<forall>d\<in>set defs. distinct (map fst d)) \<longrightarrow>
          (\<forall>k. count_list (printed_below f out) k =
                length (filter (\<lambda>d. map_of d k = Some False) defs)))"
proof -
  from assms(1) obtain fs st total_per where
    fs: "files_sorted files = Inr fs" and
    loop: "report_loop files exclude_dirs fs \<lparr>printed = [], total_yes = 0, total_no = 0\<rparr> = (st, None)" and
    out: "out = printed st @ [BlankLine, TotalLine (py_int total_per)]"
    by (rule report_returns)
  from report_loop_closed [OF loop]
  have p: "printed st = concat (map (file_block files) (filter (is_included files exclude_dirs) fs))"
    by simp
  from assms(2) have "f \<in> fst ` set files" by (rule map_of_SomeD [THEN image_eqI [rotated]]) simp
  with fs have "f \<in> set fs" by (simp add: files_sorted_set)
  moreover have r: "records_of files f = defs" by (simp add: records_of_def assms(2))
  ultimately have "f \<in> set (filter (is_included files exclude_dirs) fs)"
    using assms(3,4) by (simp add: is_included_def)
  from printed_below_blocks [OF this, of files "[TotalLine (py_int total_per)]"]
  have 1: "printed_below f out = sort (undocumented defs)"
    by (simp add: out p r)
  show ?thesis
    by (simp add: 1 count_list_sort count_list_undocumented)
qed


lemma fl_zero: "fl 0 = 0"
  by (simp add: fl_def)

lemma py_percent_zero: "0 < n \<Longrightarrow> py_percent 0 n = Inr (PFloat 0)"
  by (simp add: py_percent_def fl_zero)

lemma int_truediv_zero: "0 < n \<Longrightarrow> int_truediv 0 n = Inr (PFloat 0)"
  by (simp add: int_truediv_def fl_zero)

lemma report_twice_undocumented:
  "report default_ns twice_undocumented [] =
     ([FileLine 0 ''a.c'' 0 2, SymLine (Some ''f''), SymLine (Some ''f''), BlankLine, TotalLine 0],
      Inr (PFloat 80))"
proof -
  let ?defs = "[[(Some ''f'', False)], [(Some ''f'', False)]]"
  have c: "count_yes ?defs = 0" "count_no ?defs = 2"
    by (simp_all add: count_yes_def count_no_def)
  have u: "undocumented ?defs = [Some ''f'', Some ''f'']"
    by (simp add: undocumented_def)
  have g: "get_coverage twice_undocumented ''a.c'' = Inr (PFloat 0)"
    by (simp add: get_coverage_def twice_undocumented_def c py_percent_zero)
  have s: "files_sorted twice_undocumented = Inr [''a.c'']"
    by (simp add: files_sorted_def twice_undocumented_def [THEN arg_cong [where f = "map fst"]] g)
  have l: "list_sort [Some ''f'', Some ''f''] = Inr [Some ''f'', Some ''f'']"
    by (simp add: list_sort_strings)
  have loop: "report_loop twice_undocumented [] [''a.c''] \<lparr>printed = [], total_yes = 0, total_no = 0\<rparr> =
      (\<lparr>printed = [FileLine 0 ''a.c'' 0 2, SymLine (Some ''f''), SymLine (Some ''f'')],
        total_yes = 0, total_no = 2\<rparr>, None)"
    by (simp add: is_excluded_def twice_undocumented_def c u py_percent_zero l)
  let ?st = "\<lparr>printed = [FileLine 0 ''a.c'' 0 2, SymLine (Some ''f''), SymLine (Some ''f'')],
        total_yes = 0, total_no = 2\<rparr>"
  have t: "int_truediv (total_yes ?st * 100) (total_yes ?st + total_no ?st) = Inr (PFloat 0)"
    by (simp add: int_truediv_zero)
  have d: "int_sub_float (threshold default_ns) (num_val (PFloat 0)) = Inr 80"
    by (simp add: int_sub_float_exact fl_numeral_exact default_ns_def)
  show ?thesis
    unfolding report_eval [OF s loop t d] by (simp add: default_ns_def)
qed

theorem undocumented_identifiers_listed_witness:
  "printed_below ''a.c'' (fst (report default_ns twice_undocumented [])) = [Some ''f'', Some ''f''] \<and>
   count_list (printed_below ''a.c'' (fst (report default_ns twice_undocumented []))) (Some ''f'') = 2"
proof -
  let ?defs = "[[(Some ''f'', False)], [(Some ''f'', False)]]"
  have u: "undocumented ?defs = [Some ''f'', Some ''f'']"
    by (simp add: undocumented_def)
  have m: "map_of twice_undocumented ''a.c'' = Some ?defs"
    by (simp add: twice_undocumented_def)
  have e: "\<not> is_excluded [] ''a.c''"
    by (simp add: is_excluded_def)
  have dist: "\<forall>d\<in>set ?defs. distinct (map fst d)" by simp
  from undocumented_identifiers_listed [OF report_twice_undocumented m _ e] dist u
  show ?thesis by (simp add: report_twice_undocumented)
qed

text \<open>
  The claim as stated fails: an identifier that is undocumented in two records of a path
  is printed twice.
\<close>

theorem sorted_union_counterexample:
  "report default_ns twice_undocumented [] =
     ([FileLine 0 ''a.c'' 0 2, SymLine (Some ''f''), SymLine (Some ''f''), BlankLine, TotalLine 0],
      Inr (PFloat 80)) \<and>
   printed_below ''a.c'' (fst (report default_ns twice_undocumented [])) = [Some ''f'', Some ''f''] \<and>
   \<not> distinct (printed_below ''a.c'' (fst (report default_ns twice_undocumented [])))"
  by (simp add: report_twice_undocumented)

section \<open>Excluded paths\<close>

lemma filter_isl_Nil: "filter isl xs = [] \<longleftrightarrow> (\<forall>x\<in>set xs. \<not> isl x)"
  by (simp add: filter_empty_conv)

lemma files_sorted_iff:
  "files_sorted files = Inr fs \<longleftrightarrow>
     fs = rev (sort_key (cov_key files) (map fst files)) \<and>
     (length files < 2 \<or> (\<forall>f\<in>fst ` set files. \<not> isl (get_coverage files f)))"
proof (cases "filter isl (map (get_coverage files) (map fst files))")
  case Nil
  then have "\<forall>f\<in>fst ` set files. \<not> isl (get_coverage files f)"
    by (simp add: filter_empty_conv)
  with Nil show ?thesis by (auto simp: files_sorted_def)
next
  case (Cons x xs)
  then have "x \<in> set (filter isl (map (get_coverage files) (map fst files)))" by simp
  then have x: "isl x" "x \<in> get_coverage files ` fst ` set files" by auto
  then obtain e where e: "x = Inl e" by (cases x) simp_all
  from x have "\<not> (\<forall>f\<in>fst ` set files. \<not> isl (get_coverage files f))" by auto
  with Cons e show ?thesis by (auto simp: files_sorted_def)
qed

lemma map_of_filter_key:
  "P k \<Longrightarrow> map_of (filter (\<lambda>(k, v). P k) xs) k = map_of xs k"
  by (induction xs) auto

lemma insort_key_cong_set:
  "f x = g x \<Longrightarrow> (\<forall>y\<in>set ys. f y = g y) \<Longrightarrow> insort_key f x ys = insort_key g x ys"
  by (induction ys) simp_all

lemma sort_key_cong_set:
  "(\<forall>x\<in>set xs. f x = g x) \<Longrightarrow> sort_key f xs = sort_key g xs"
proof (induction xs)
  case Nil
  show ?case by simp
next
  case (Cons x xs)
  then have "sort_key f xs = sort_key g xs" by simp
  moreover have "insort_key f x (sort_key g xs) = insort_key g x (sort_key g xs)"
    using Cons.prems by (intro insort_key_cong_set) simp_all
  ultimately show ?case by simp
qed

lemma get_coverage_filter:
  "\<not> is_excluded ex f \<Longrightarrow>
   get_coverage (filter (\<lambda>(g, defs). \<not> is_excluded ex g) files) f = get_coverage files f"
  by (simp add: get_coverage_def map_of_filter_key [where P = "\<lambda>g. \<not> is_excluded ex g"])

lemma files_sorted_filter:
  assumes "files_sorted files = Inr fs"
  shows "files_sorted (filter (\<lambda>(g, defs). \<not> is_excluded ex g) files) =
         Inr (filter (\<lambda>g. \<not> is_excluded ex g) fs)"
proof -
  let ?P = "\<lambda>g. \<not> is_excluded ex g"
  let ?files = "filter (\<lambda>(g, defs). ?P g) files"
  have keys: "map fst ?files = filter ?P (map fst files)"
    by (induction files) auto
  have cov: "\<forall>f\<in>set (filter ?P (map fst files)). cov_key ?files f = cov_key files f"
    by (simp add: cov_key_def get_coverage_filter)
  from assms have fs: "fs = rev (sort_key (cov_key files) (map fst files))"
    and ok: "length files < 2 \<or> (\<forall>f\<in>fst ` set files. \<not> isl (get_coverage files f))"
    by (simp_all add: files_sorted_iff)
  have "rev (sort_key (cov_key ?files) (map fst ?files)) =
        rev (sort_key (cov_key files) (filter ?P (map fst files)))"
    unfolding keys using cov by (simp only: sort_key_cong_set)
  also have "\<dots> = rev (filter ?P (sort_key (cov_key files) (map fst files)))"
    by (simp only: filter_sort)
  also have "\<dots> = filter ?P fs"
    by (simp only: fs rev_filter)
  finally have 1: "filter ?P fs = rev (sort_key (cov_key ?files) (map fst ?files))" by simp
  have "length ?files \<le> length files" by simp
  moreover have "\<forall>f\<in>fst ` set files. \<not> isl (get_coverage files f) \<Longrightarrow>
      \<forall>f\<in>fst ` set ?files. \<not> isl (get_coverage ?files f)"
    by (auto simp: get_coverage_filter)
  ultimately have 2: "length ?files < 2 \<or> (\<forall>f\<in>fst ` set ?files. \<not> isl (get_coverage ?files f))"
    using ok by linarith
  from 1 2 show ?thesis by (simp only: files_sorted_iff)
qed

lemma report_loop_filter:
  "report_loop (filter (\<lambda>(g, defs). \<not> is_excluded ex g) files) ex
     (filter (\<lambda>g. \<not> is_excluded ex g) fs) st =
   report_loop files ex fs st"
proof (induction fs arbitrary: st)
  case Nil
  show ?case by simp
next
  case (Cons f fs)
  show ?case
  proof (cases "is_excluded ex f")
    case True
    with Cons show ?thesis by simp
  next
    case False
    then have m: "map_of (filter (\<lambda>(g, defs). \<not> is_excluded ex g) files) f = map_of files f"
      by (simp add: map_of_filter_key [where P = "\<lambda>g. \<not> is_excluded ex g"])
    from False have "filter (\<lambda>g. \<not> is_excluded ex g) (f # fs) = f # filter (\<lambda>g. \<not> is_excluded ex g) fs"
      by simp
    then show ?thesis
      using False by (simp add: m Cons.IH Let_def split: option.splits sum.splits)
  qed
qed

lemma report_filter:
  assumes "files_sorted files = Inr fs"
  shows "report ns (filter (\<lambda>(g, defs). \<not> is_excluded ex g) files) ex = report ns files ex"
  by (simp add: report_def assms files_sorted_filter [OF assms] report_loop_filter)

lemma report_excluded_not_printed:
  "is_excluded ex f \<Longrightarrow> f \<notin> set (file_paths (fst (report ns files ex)))"
proof (cases "files_sorted files")
  case (Inl e)
  then show ?thesis by (simp add: report_def)
next
  case (Inr fs)
  assume x: "is_excluded ex f"
  let ?st0 = "\<lparr>printed = [], total_yes = 0, total_no = 0\<rparr>"
  from report_loop_paths [of fs ex files ?st0] obtain ps where
    ps: "\<forall>f\<in>set ps. \<not> is_excluded ex f \<and> (\<exists>c. get_coverage files f = Inr c)"
      "file_paths (printed (fst (report_loop files ex fs ?st0))) = ps"
    by auto
  from ps(2) have "file_paths (fst (report ns files ex)) = ps"
    by (simp add: report_file_paths [OF Inr])
  with ps(1) x show ?thesis by auto
qed


text \<open>
  C7. A path that contains one of the exclusion substrings is on no file line of the
  report. Its records contribute nothing: whenever the sort of the keys succeeds, the
  report and the verdict are those of the table without the excluded paths, and the
  totals the loop accumulates are the sums over the paths that are neither excluded nor
  without records.
\<close>

theorem excluded_paths_contribute_nothing:
  "(is_excluded exclude_dirs f \<longrightarrow>
      f \<notin> set (file_paths (fst (report ns files exclude_dirs)))) \<and>
   (files_sorted files = Inr fs \<longrightarrow>
      report ns (filter (\<lambda>(g, defs). \<not> is_excluded exclude_dirs g) files) exclude_dirs =
      report ns files exclude_dirs) \<and>
   (report_loop files exclude_dirs fs st = (st', None) \<longrightarrow>
      total_yes st' = total_yes st +
        sum_list (map (\<lambda>g. count_yes (records_of files g))
                   (filter (\<lambda>g. \<not> is_excluded exclude_dirs g \<and> records_of files g \<noteq> []) fs)) \<and>
      total_no st' = total_no st +
        sum_list (map (\<lambda>g. count_no (records_of files g))
                   (filter (\<lambda>g. \<not> is_excluded exclude_dirs g \<and> records_of files g \<noteq> []) fs)))"
proof (intro conjI impI)
  assume "is_excluded exclude_dirs f"
  then show "f \<notin> set (file_paths (fst (report ns files exclude_dirs)))"
    by (rule report_excluded_not_printed)
next
  assume "files_sorted files = Inr fs"
  then show "report ns (filter (\<lambda>(g, defs). \<not> is_excluded exclude_dirs g) files) exclude_dirs =
      report ns files exclude_dirs"
    by (rule report_filter)
next
  assume "report_loop files exclude_dirs fs st = (st', None)"
  from report_loop_closed [OF this]
  show "total_yes st' = total_yes st +
        sum_list (map (\<lambda>g. count_yes (records_of files g))
                   (filter (\<lambda>g. \<not> is_excluded exclude_dirs g \<and> records_of files g \<noteq> []) fs))"
    and "total_no st' = total_no st +
        sum_list (map (\<lambda>g. count_no (records_of files g))
                   (filter (\<lambda>g. \<not> is_excluded exclude_dirs g \<and> records_of files g \<noteq> []) fs))"
    by (simp_all add: is_included_def [abs_def])
qed

lemma counts_xml_files:
  "count_yes [a_h_defs] = 3" "count_no [a_h_defs] = 0"
  "count_yes [b_c_defs] = 1" "count_no [b_c_defs] = 3"
  by (simp_all add: count_yes_def count_no_def a_h_defs_def b_c_defs_def)

lemma percent_3_of_3: "py_percent 3 3 = Inr (PFloat 100)"
  using py_percent_whole [of 3 3 100] by simp

lemma percent_1_of_4: "py_percent (Suc 0) 4 = Inr (PFloat 25)"
  using py_percent_whole [of 4 1 25] by simp

lemma percent_xml_files:
  "py_percent (count_yes [a_h_defs]) (count_yes [a_h_defs] + count_no [a_h_defs]) = Inr (PFloat 100)"
  "py_percent (count_yes [b_c_defs]) (count_yes [b_c_defs] + count_no [b_c_defs]) = Inr (PFloat 25)"
  by (simp_all add: counts_xml_files percent_3_of_3 percent_1_of_4)

lemma get_coverage_xml_files:
  "get_coverage xml_files ''src/a.h'' = Inr (PFloat 100)"
  "get_coverage xml_files ''src/b.c'' = Inr (PFloat 25)"
  by (simp_all add: get_coverage_def xml_files_def percent_xml_files)

lemma files_sorted_xml_files: "files_sorted xml_files = Inr [''src/a.h'', ''src/b.c'']"
proof -
  have k: "map fst xml_files = [''src/a.h'', ''src/b.c'']"
    by (simp add: xml_files_def)
  show ?thesis
    unfolding files_sorted_def k
    by (simp add: cov_key_def get_coverage_xml_files)
qed

lemma undocumented_xml_files:
  "undocumented [a_h_defs] = []"
  "undocumented [b_c_defs] = [Some ''int g'', Some ''int h'', Some ''int i'']"
  by (simp_all add: undocumented_def a_h_defs_def b_c_defs_def)

lemma list_sort_b_c:
  "list_sort [Some ''int g'', Some ''int h'', Some ''int i''] =
     Inr [Some ''int g'', Some ''int h'', Some ''int i'']"
  by code_simp

lemma excluded_src_b:
  "is_excluded [''src/b''] ''src/b.c''" "\<not> is_excluded [''src/b''] ''src/a.h''"
  by code_simp+

lemma map_of_xml_files:
  "map_of xml_files ''src/a.h'' = Some [a_h_defs]"
  "map_of xml_files ''src/b.c'' = Some [b_c_defs]"
  by (simp_all add: xml_files_def)

lemma report_xml_files_excluding_b:
  "report default_ns xml_files [''src/b''] =
     ([FileLine 100 ''src/a.h'' 3 3, BlankLine, TotalLine 100], Inr (PInt 0))"
proof -
  let ?st = "\<lparr>printed = [FileLine 100 ''src/a.h'' 3 3], total_yes = 3, total_no = 0\<rparr>"
  have loop: "report_loop xml_files [''src/b''] [''src/a.h'', ''src/b.c'']
      \<lparr>printed = [], total_yes = 0, total_no = 0\<rparr> = (?st, None)"
    by (simp add: excluded_src_b map_of_xml_files percent_3_of_3 undocumented_xml_files
        counts_xml_files list_sort_def)
  have t: "int_truediv (total_yes ?st * 100) (total_yes ?st + total_no ?st) = Inr (PFloat 100)"
    using int_truediv_whole [of 3 300 100] by simp
  have "int_sub_float 80 100 = Inr (fl (rat_of_int 80 - 100))"
    by (rule int_sub_float_exact) simp
  also have "rat_of_int 80 - 100 = rat_of_int (- 20)" by simp
  also have "fl (rat_of_int (- 20)) = rat_of_int (- 20)" by (rule fl_of_int_exact) simp
  finally have d: "int_sub_float (threshold default_ns) (num_val (PFloat 100)) = Inr (- 20)"
    by (simp add: default_ns_def)
  show ?thesis
    unfolding report_eval [OF files_sorted_xml_files loop t d] by (simp add: default_ns_def)
qed

lemma filter_xml_files:
  "filter (\<lambda>(g, defs). \<not> is_excluded [''src/b''] g) xml_files = full_files"
  by (simp add: xml_files_def full_files_def excluded_src_b)

theorem excluded_paths_contribute_nothing_witness:
  "is_excluded [''src/b''] ''src/b.c'' \<and>
   ''src/b.c'' \<notin> set (file_paths (fst (report default_ns xml_files [''src/b'']))) \<and>
   report default_ns full_files [''src/b''] = report default_ns xml_files [''src/b''] \<and>
   report default_ns xml_files [''src/b''] =
     ([FileLine 100 ''src/a.h'' 3 3, BlankLine, TotalLine 100], Inr (PInt 0))"
  using excluded_paths_contribute_nothing
    [of "[''src/b'']" "''src/b.c''" default_ns xml_files "[''src/a.h'', ''src/b.c'']"]
  by (simp add: excluded_src_b files_sorted_xml_files filter_xml_files report_xml_files_excluding_b)

section \<open>The empty corpus\<close>

lemma get_coverage_error:
  assumes "get_coverage files f = Inl e" and "f \<in> fst ` set files"
  shows "e = ZeroDivisionError"
proof -
  from assms(2) obtain defs where "map_of files f = Some defs"
    by (cases "map_of files f") (auto simp: map_of_eq_None_iff)
  with assms(1) show ?thesis
    by (auto simp: get_coverage_def py_percent_def split: if_splits)
qed

lemma files_sorted_error:
  assumes "files_sorted files = Inl e"
  shows "e = ZeroDivisionError"
proof -
  have "\<exists>xs. filter isl (map (get_coverage files) (map fst files)) = Inl e # xs"
  proof (cases "filter isl (map (get_coverage files) (map fst files))")
    case Nil
    with assms show ?thesis by (simp add: files_sorted_def)
  next
    case (Cons x xs)
    with assms show ?thesis
      by (cases x) (simp_all add: files_sorted_def split: if_splits)
  qed
  then obtain xs where "filter isl (map (get_coverage files) (map fst files)) = Inl e # xs" ..
  then have "Inl e \<in> set (filter isl (map (get_coverage files) (map fst files)))" by simp
  then have "\<exists>f\<in>fst ` set files. get_coverage files f = Inl e" by force
  then show ?thesis by (auto dest: get_coverage_error)
qed

lemma report_loop_none_included:
  "list_all (\<lambda>f. \<not> is_included files ex f) fs \<Longrightarrow> set fs \<subseteq> fst ` set files \<Longrightarrow>
   report_loop files ex fs st = (st, None)"
proof (induction fs)
  case Nil
  show ?case by simp
next
  case (Cons f fs)
  then have ih: "report_loop files ex fs st = (st, None)" by simp
  show ?case
  proof (cases "is_excluded ex f")
    case True
    with ih show ?thesis by simp
  next
    case False
    with Cons.prems have "records_of files f = []" by (simp add: is_included_def)
    moreover from Cons.prems have "map_of files f \<noteq> None"
      by (simp add: map_of_eq_None_iff)
    ultimately have "map_of files f = Some []" by (auto simp: records_of_def)
    with False ih show ?thesis by simp
  qed
qed

text \<open>
  C3 fails on the code. When no path of the table is included (the table is empty, or
  every path is excluded or without records), \<open>report\<close> prints nothing and raises
  ZeroDivisionError: the sum of the totals is zero in line 185, and no guard precedes
  the division.
\<close>

theorem empty_corpus_division_fault:
  assumes "list_all (\<lambda>f. \<not> is_included files exclude_dirs f) (map fst files)"
  shows "report ns files exclude_dirs = ([], Inl ZeroDivisionError)"
proof (cases "files_sorted files")
  case (Inl e)
  then show ?thesis by (simp add: report_def files_sorted_error)
next
  case (Inr fs)
  then have s: "set fs = fst ` set files" by (rule files_sorted_set)
  with assms have "list_all (\<lambda>f. \<not> is_included files exclude_dirs f) fs"
    by (simp add: list_all_iff)
  with s have "report_loop files exclude_dirs fs \<lparr>printed = [], total_yes = 0, total_no = 0\<rparr> =
      (\<lparr>printed = [], total_yes = 0, total_no = 0\<rparr>, None)"
    by (intro report_loop_none_included) simp_all
  with Inr show ?thesis by (simp add: report_def int_truediv_def)
qed

theorem empty_corpus_division_fault_witness:
  "report (default_ns\<lparr>dir := ''empty''\<rparr>) [] [] = ([], Inl ZeroDivisionError) \<and>
   main (default_ns\<lparr>dir := ''empty''\<rparr>) example_fs = ([], Inl ZeroDivisionError) \<and>
   exit_status (snd (main (default_ns\<lparr>dir := ''empty''\<rparr>) example_fs)) = 1"
proof -
  have p: "parse (default_ns\<lparr>dir := ''empty''\<rparr>) example_fs ''empty'' = Inr []"
    by code_simp
  from empty_corpus_division_fault [of "[]" "[]" "default_ns\<lparr>dir := ''empty''\<rparr>"]
  have r: "report (default_ns\<lparr>dir := ''empty''\<rparr>) [] [] = ([], Inl ZeroDivisionError)"
    by simp
  then have m: "main (default_ns\<lparr>dir := ''empty''\<rparr>) example_fs = ([], Inl ZeroDivisionError)"
    using p by (simp add: main_def default_ns_def)
  from r m show ?thesis by simp
qed

section \<open>The total percentage\<close>

lemma fl_400_7: "fl (400 / 7) = 8042142191733029 / 140737488355328"
  by code_simp

lemma fl_deficit:
  "fl (3216856876693211 / 140737488355328) = 3216856876693211 / 140737488355328"
  by code_simp

lemma default_ns_fields:
  "dir default_ns = ''xml''" "noerror default_ns = False" "threshold default_ns = 80"
  "excludedirs default_ns = []"
  by (simp_all add: default_ns_def)

lemma report_loop_xml_files:
  "report_loop xml_files [] [''src/a.h'', ''src/b.c'']
      \<lparr>printed = [], total_yes = 0, total_no = 0\<rparr> =
   (\<lparr>printed = [FileLine 100 ''src/a.h'' 3 3, FileLine 25 ''src/b.c'' 1 4,
                 SymLine (Some ''int g''), SymLine (Some ''int h''), SymLine (Some ''int i'')],
      total_yes = 4, total_no = 3\<rparr>, None)"
  by (simp add: is_excluded_def map_of_xml_files percent_3_of_3 percent_1_of_4
      undocumented_xml_files counts_xml_files list_sort_b_c list_sort_def [of "[]"])

lemma report_xml_files:
  "report default_ns xml_files [] =
     ([FileLine 100 ''src/a.h'' 3 3, FileLine 25 ''src/b.c'' 1 4,
       SymLine (Some ''int g''), SymLine (Some ''int h''), SymLine (Some ''int i''),
       BlankLine, TotalLine 57],
      Inr (PFloat (3216856876693211 / 140737488355328)))"
proof -
  let ?st = "\<lparr>printed = [FileLine 100 ''src/a.h'' 3 3, FileLine 25 ''src/b.c'' 1 4,
                 SymLine (Some ''int g''), SymLine (Some ''int h''), SymLine (Some ''int i'')],
      total_yes = 4, total_no = 3\<rparr>"
  let ?tp = "PFloat (8042142191733029 / 140737488355328)"
  have t: "int_truediv (total_yes ?st * 100) (total_yes ?st + total_no ?st) = Inr ?tp"
    by (simp add: int_truediv_def fl_400_7)
  have "int_sub_float 80 (8042142191733029 / 140737488355328) =
        Inr (fl (rat_of_int 80 - 8042142191733029 / 140737488355328))"
    by (rule int_sub_float_exact) simp
  then have d: "int_sub_float (threshold default_ns) (num_val ?tp) =
      Inr (3216856876693211 / 140737488355328)"
    by (simp add: default_ns_def fl_deficit)
  have i: "py_int ?tp = 57" by code_simp
  have c: "\<not> rat_of_int (threshold default_ns) < num_val ?tp"
    by (simp add: default_ns_def)
  show ?thesis
    unfolding report_eval [OF files_sorted_xml_files report_loop_xml_files t d] i
    using c by simp
qed

lemma parse_xml: "parse default_ns example_fs ''xml'' = Inr xml_files"
  by code_simp

text \<open>
  C2 fails on the code. With group A (3 of 3 documented), group B (1 of 4) and threshold
  80, the total percentage is the float \<open>57.142857142857146\<close> (line 185 is a true
  division in Python 3), printed as 57, and the verdict is the float
  \<open>22.857142857142854\<close>, not the integer 23. Handed to \<^verbatim>\<open>sys.exit\<close>, a float is
  printed to standard error and the exit status is 1.
\<close>

theorem total_percent_is_a_float:
  "report default_ns xml_files [] =
     ([FileLine 100 ''src/a.h'' 3 3, FileLine 25 ''src/b.c'' 1 4,
       SymLine (Some ''int g''), SymLine (Some ''int h''), SymLine (Some ''int i''),
       BlankLine, TotalLine 57],
      Inr (PFloat (3216856876693211 / 140737488355328))) \<and>
   snd (main default_ns example_fs) =
     Inl (SystemExit (PFloat (3216856876693211 / 140737488355328))) \<and>
   exit_status (snd (main default_ns example_fs)) = 1"
  by (simp add: main_def default_ns_fields parse_xml report_xml_files)

section \<open>The verdict when everything is documented\<close>

lemma report_loop_full_files:
  "report_loop full_files [] [''src/a.h''] \<lparr>printed = [], total_yes = 0, total_no = 0\<rparr> =
   (\<lparr>printed = [FileLine 100 ''src/a.h'' 3 3], total_yes = 3, total_no = 0\<rparr>, None)"
proof -
  have m: "map_of full_files ''src/a.h'' = Some [a_h_defs]"
    by (simp add: full_files_def)
  show ?thesis
    by (simp add: is_excluded_def m percent_3_of_3 undocumented_xml_files counts_xml_files
        list_sort_def)
qed

lemma files_sorted_full_files: "files_sorted full_files = Inr [''src/a.h'']"
proof -
  have "get_coverage full_files ''src/a.h'' = Inr (PFloat 100)"
    by (simp add: get_coverage_def full_files_def percent_xml_files)
  then show ?thesis
    by (simp add: files_sorted_def full_files_def [THEN arg_cong [where f = "map fst"]])
qed

lemma parse_full:
  "parse (default_ns\<lparr>dir := ''full'', threshold := 100\<rparr>) example_fs ''full'' = Inr full_files"
  by code_simp

text \<open>
  C8 fails on the code at the boundary. When the loop has counted at least one
  documented symbol and no undocumented one, the total percentage is the float
  \<open>100.0\<close>. For a threshold below 100 (of a size a float holds exactly) the verdict is
  the integer 0. For the threshold 100 the test \<^verbatim>\<open>total_per > ns.threshold\<close> is false and
  the verdict is \<^verbatim>\<open>100 - 100.0\<close>, the float \<open>0.0\<close>: \<^verbatim>\<open>sys.exit(0.0)\<close> prints it to
  standard error and the process ends with status 1, so the run does not pass.
\<close>

theorem all_documented_verdict:
  assumes "parse ns fs (dir ns) = Inr files" and "\<not> noerror ns"
    and "files_sorted files = Inr keys"
    and "report_loop files (excludedirs ns) keys \<lparr>printed = [], total_yes = 0, total_no = 0\<rparr> =
           (st, None)"
    and "total_no st = 0" and "0 < total_yes st"
    and "\<bar>threshold ns\<bar> < 2 ^ 53" and "threshold ns \<le> 100"
  shows "report ns files (excludedirs ns) =
           (printed st @ [BlankLine, TotalLine 100],
            Inr (if threshold ns < 100 then PInt 0 else PFloat 0)) \<and>
         exit_status (snd (main ns fs)) = (if threshold ns < 100 then 0 else 1)"
proof -
  have "total_yes st * 100 = 100 * total_yes st" by simp
  with assms(6) have "int_truediv (total_yes st * 100) (total_yes st) = Inr (PFloat (rat_of_nat 100))"
    by (intro int_truediv_whole) simp_all
  with assms(5) have t: "int_truediv (total_yes st * 100) (total_yes st + total_no st) =
      Inr (PFloat 100)"
    by simp
  have d: "int_sub_float (threshold ns) (num_val (PFloat 100)) =
      Inr (fl (rat_of_int (threshold ns) - 100))"
    using int_sub_float_exact [OF assms(7)] by simp
  have z: "threshold ns = 100 \<Longrightarrow> fl (rat_of_int (threshold ns) - 100) = 0"
    by (simp add: fl_zero)
  have c: "rat_of_int (threshold ns) < num_val (PFloat 100) \<longleftrightarrow> threshold ns < 100"
    by simp
  have i: "py_int (PFloat 100) = 100" by simp
  have r: "report ns files (excludedirs ns) =
           (printed st @ [BlankLine, TotalLine 100],
            Inr (if threshold ns < 100 then PInt 0 else PFloat 0))"
    unfolding report_eval [OF assms(3,4) t d] c i
    using assms(8) z by (cases "threshold ns = 100") simp_all
  then have "exit_status (snd (main ns fs)) = (if threshold ns < 100 then 0 else 1)"
    using assms(1,2) by (simp add: main_def)
  with r show ?thesis by simp
qed

lemma parse_full_80:
  "parse (default_ns\<lparr>dir := ''full''\<rparr>) example_fs ''full'' = Inr full_files"
  by code_simp

theorem all_documented_verdict_witness:
  "report (default_ns\<lparr>dir := ''full'', threshold := 100\<rparr>) full_files [] =
     ([FileLine 100 ''src/a.h'' 3 3, BlankLine, TotalLine 100], Inr (PFloat 0)) \<and>
   exit_status (snd (main (default_ns\<lparr>dir := ''full'', threshold := 100\<rparr>) example_fs)) = 1 \<and>
   report (default_ns\<lparr>dir := ''full''\<rparr>) full_files [] =
     ([FileLine 100 ''src/a.h'' 3 3, BlankLine, TotalLine 100], Inr (PInt 0)) \<and>
   exit_status (snd (main (default_ns\<lparr>dir := ''full''\<rparr>) example_fs)) = 0"
proof -
  let ?ns = "default_ns\<lparr>dir := ''full'', threshold := 100\<rparr>"
  let ?ns80 = "default_ns\<lparr>dir := ''full''\<rparr>"
  have f: "dir ?ns = ''full''" "noerror ?ns = False" "threshold ?ns = 100" "excludedirs ?ns = []"
    "dir ?ns80 = ''full''" "noerror ?ns80 = False" "threshold ?ns80 = 80" "excludedirs ?ns80 = []"
    by (simp_all add: default_ns_def)
  have p: "parse ?ns example_fs (dir ?ns) = Inr full_files"
    "parse ?ns80 example_fs (dir ?ns80) = Inr full_files"
    unfolding f by (rule parse_full, rule parse_full_80)
  have l: "report_loop full_files (excludedirs ?ns) [''src/a.h'']
      \<lparr>printed = [], total_yes = 0, total_no = 0\<rparr> =
      (\<lparr>printed = [FileLine 100 ''src/a.h'' 3 3], total_yes = 3, total_no = 0\<rparr>, None)"
    "report_loop full_files (excludedirs ?ns80) [''src/a.h'']
      \<lparr>printed = [], total_yes = 0, total_no = 0\<rparr> =
      (\<lparr>printed = [FileLine 100 ''src/a.h'' 3 3], total_yes = 3, total_no = 0\<rparr>, None)"
    unfolding f by (rule report_loop_full_files)+
  from all_documented_verdict [OF p(1) _ files_sorted_full_files l(1)]
    all_documented_verdict [OF p(2) _ files_sorted_full_files l(2)]
  show ?thesis by (simp add: f)
qed

section \<open>The exit status\<close>















section \<open>The table that parse returns\<close>

lemma count_yes_no_record:
  "length [v. (k, v) \<leftarrow> d, v] + length [v. (k, v) \<leftarrow> d, \<not> v] = length d"
  by (induction d) auto

lemma count_yes_no: "count_yes defs + count_no defs = length (concat defs)"
proof (induction defs)
  case Nil
  show ?case by (simp add: count_yes_def count_no_def)
next
  case (Cons d defs)
  have "count_yes (d # defs) + count_no (d # defs) =
        (length [v. (k, v) \<leftarrow> d, v] + length [v. (k, v) \<leftarrow> d, \<not> v]) +
        (count_yes defs + count_no defs)"
    by (simp add: count_yes_def count_no_def)
  with Cons show ?case by (simp add: count_yes_no_record)
qed

lemma count_positive:
  assumes "defs \<noteq> []" and "[] \<notin> set defs"
  shows "0 < count_yes defs + count_no defs"
proof -
  from assms obtain d ds where "defs = d # ds" "d \<noteq> []" by (cases defs) auto
  then show ?thesis by (simp add: count_yes_no)
qed

lemma add_record_distinct:
  "distinct (map fst files) \<Longrightarrow> distinct (map fst (add_record tmp files))"
  by (simp add: add_record_def distinct_update split: option.splits)

lemma add_record_nonempty:
  assumes "\<forall>f defs. map_of files f = Some defs \<longrightarrow> defs \<noteq> [] \<and> [] \<notin> set defs"
  shows "\<forall>f defs. map_of (add_record tmp files) f = Some defs \<longrightarrow> defs \<noteq> [] \<and> [] \<notin> set defs"
proof (cases "snd tmp = []")
  case True
  with assms show ?thesis by (simp add: add_record_def)
next
  case False
  show ?thesis
  proof (cases "map_of files (fst tmp)")
    case None
    with False assms show ?thesis
      by (auto simp: add_record_def update_conv')
  next
    case (Some l)
    with assms have "l \<noteq> [] \<and> [] \<notin> set l" by blast
    with False Some assms show ?thesis
      by (auto simp: add_record_def update_conv')
  qed
qed

lemma parse_entries_invariant:
  assumes "parse_entries fs path entries files = Inr files'"
    and "distinct (map fst files)"
    and "\<forall>f defs. map_of files f = Some defs \<longrightarrow> defs \<noteq> [] \<and> [] \<notin> set defs"
  shows "distinct (map fst files') \<and>
         (\<forall>f defs. map_of files' f = Some defs \<longrightarrow> defs \<noteq> [] \<and> [] \<notin> set defs)"
  using assms
proof (induction entries arbitrary: files)
  case Nil
  then show ?case by simp
next
  case (Cons entry entries)
  from Cons.prems(1) obtain kind where k: "get entry ''kind'' = Some kind"
    by (cases "get entry ''kind''") simp_all
  show ?case
  proof (cases "sublist kind ''dir''")
    case True
    with Cons.prems k have "parse_entries fs path entries files = Inr files'" by simp
    from Cons.IH [OF this Cons.prems(2,3)] show ?thesis .
  next
    case False
    with Cons.prems(1) k obtain tmp where
      t: "parse_file fs (os_path_join path (percent_s (get entry ''refid'') @ ''.xml'')) = Inr tmp"
      by (cases "parse_file fs (os_path_join path (percent_s (get entry ''refid'') @ ''.xml''))")
         simp_all
    with Cons.prems(1) k False
    have "parse_entries fs path entries (add_record tmp files) = Inr files'" by simp
    from Cons.IH [OF this add_record_distinct [OF Cons.prems(2)]
        add_record_nonempty [OF Cons.prems(3)]]
    show ?thesis .
  qed
qed

text \<open>
  C10. In a table that \<open>parse\<close> returns every path has a non-empty list of records and
  none of the records is empty. So for every path of the table the denominator of the
  coverage division is positive, \<open>get_coverage\<close> takes the float branch and not the one
  that returns 100 for an empty list, and the sort of the keys in \<open>report\<close> does not
  raise.
\<close>

theorem parse_records_nonempty:
  assumes "parse ns fs path = Inr files" and "(f, defs) \<in> set files"
  shows "defs \<noteq> [] \<and> [] \<notin> set defs \<and>
         map_of files f = Some defs \<and>
         0 < count_yes defs + count_no defs \<and>
         get_coverage files f = py_percent (count_yes defs) (count_yes defs + count_no defs) \<and>
         (\<exists>x. get_coverage files f = Inr (PFloat x)) \<and>
         (\<exists>keys. files_sorted files = Inr keys)"
proof -
  from assms(1) obtain tree where
    "parse_entries fs path (findall_child ''compound'' tree) [] = Inr files"
    by (auto simp: parse_def Let_def split: option.splits fsentry.splits)
  then have inv: "distinct (map fst files)"
    "\<forall>f defs. map_of files f = Some defs \<longrightarrow> defs \<noteq> [] \<and> [] \<notin> set defs"
    using parse_entries_invariant [of fs path "findall_child ''compound'' tree" "[]" files]
    by simp_all
  from inv(1) assms(2) have m: "map_of files f = Some defs" by simp
  with inv(2) have ne: "defs \<noteq> []" "[] \<notin> set defs" by blast+
  then have pos: "0 < count_yes defs + count_no defs" by (rule count_positive)
  from m ne have g: "get_coverage files f =
      py_percent (count_yes defs) (count_yes defs + count_no defs)"
    by (simp add: get_coverage_def)
  from pos have x: "\<exists>x. py_percent (count_yes defs) (count_yes defs + count_no defs) = Inr (PFloat x)"
    by (simp add: py_percent_def)
  have "\<forall>g\<in>fst ` set files. \<not> isl (get_coverage files g)"
  proof
    fix g assume "g \<in> fst ` set files"
    then obtain ds where "(g, ds) \<in> set files" by auto
    with inv(1) have mg: "map_of files g = Some ds" by simp
    with inv(2) have "ds \<noteq> []" "[] \<notin> set ds" by blast+
    then have "0 < count_yes ds + count_no ds" by (rule count_positive)
    with mg \<open>ds \<noteq> []\<close> show "\<not> isl (get_coverage files g)"
      by (simp add: get_coverage_def py_percent_def)
  qed
  then have "\<exists>keys. files_sorted files = Inr keys"
    by (simp add: files_sorted_iff)
  with m ne pos g x show ?thesis by simp
qed

theorem parse_records_nonempty_witness:
  "parse default_ns example_fs ''xml'' = Inr xml_files \<and>
   (''src/b.c'', [b_c_defs]) \<in> set xml_files \<and>
   map_of xml_files ''src/b.c'' = Some [b_c_defs] \<and>
   0 < count_yes [b_c_defs] + count_no [b_c_defs] \<and>
   get_coverage xml_files ''src/b.c'' = Inr (PFloat 25)"
proof -
  have p: "parse default_ns example_fs ''xml'' = Inr xml_files" by (rule parse_xml)
  have i: "(''src/b.c'', [b_c_defs]) \<in> set xml_files" by (simp add: xml_files_def)
  from parse_records_nonempty [OF p i] p i show ?thesis
    by (simp add: get_coverage_xml_files)
qed

section \<open>The identifier of a member\<close>

text \<open>
  C6, as the code has it. The identifier of a member definition is the text of its
  \<open>definition\<close> element if the element is present; otherwise the text of its \<open>name\<close>
  element if that is present; otherwise its \<open>id\<close> attribute. Each of the three can be
  missing (an element without text, no attribute), and then the identifier is \<open>None\<close>.
  Every member definition that is considered has an entry under its identifier in the
  mapping that the extractor returns.
\<close>

theorem identifier_resolution:
  "(find_child ''definition'' m = Some d_def \<longrightarrow> member_name m = etext d_def) \<and>
   (find_child ''definition'' m = None \<and> find_child ''name'' m = Some d_nam \<longrightarrow>
      member_name m = etext d_nam) \<and>
   (find_child ''definition'' m = None \<and> find_child ''name'' m = None \<longrightarrow>
      member_name m = get m ''id'') \<and>
   (m \<in> set (findall_memberdef tree) \<and> \<not> is_static_function m \<longrightarrow>
      member_name m \<in> fst ` set (snd (parse_tree fullpath tree)))"
  by (auto simp: member_name_def parse_tree_keys)

lemma find_child_examples:
  "find_child ''definition'' signature_node = Some (Element ''definition'' [] (Some ''int ns::counter'') [])"
  "find_child ''definition'' name_only_node = None"
  "find_child ''name'' name_only_node = Some (Element ''name'' [] (Some ''LIMIT'') [])"
  "find_child ''definition'' id_only_node = None"
  "find_child ''name'' id_only_node = None"
  by (simp_all add: find_child_def findall_child_def signature_node_def name_only_node_def
      id_only_node_def)

lemma parse_tree_named:
  "parse_tree ''xml/a_8c.xml'' (compound_doc [signature_node, name_only_node, id_only_node]) =
     (''xml/a_8c.xml'',
      [(Some ''int ns::counter'', False), (Some ''LIMIT'', False), (Some ''a_8c_4'', False)])"
  by code_simp

theorem identifier_resolution_witness:
  "member_name signature_node = Some ''int ns::counter'' \<and>
   member_name name_only_node = Some ''LIMIT'' \<and>
   member_name id_only_node = Some ''a_8c_4'' \<and>
   parse_tree ''xml/a_8c.xml'' (compound_doc [signature_node, name_only_node, id_only_node]) =
     (''xml/a_8c.xml'',
      [(Some ''int ns::counter'', False), (Some ''LIMIT'', False), (Some ''a_8c_4'', False)])"
proof -
  note r = identifier_resolution
  have 1: "member_name signature_node = Some ''int ns::counter''"
    using r [of signature_node "Element ''definition'' [] (Some ''int ns::counter'') []"]
    by (simp add: find_child_examples)
  have 2: "member_name name_only_node = Some ''LIMIT''"
    using r [of name_only_node _ "Element ''name'' [] (Some ''LIMIT'') []"]
    by (simp add: find_child_examples)
  have "get id_only_node ''id'' = Some ''a_8c_4''"
    by (simp add: get_def id_only_node_def)
  with r [of id_only_node] have 3: "member_name id_only_node = Some ''a_8c_4''"
    by (simp add: find_child_examples)
  from 1 2 3 parse_tree_named show ?thesis by simp
qed

text \<open>
  The claim as stated fails: a member with an empty \<open>definition\<close> element, the name
  \<open>counter\<close> and the id \<open>a_8c_1\<close> is stored under \<open>None\<close>: it has no identifier,
  although a name and an id are there.
\<close>

theorem some_identifier_counterexample:
  "find_child ''name'' empty_signature_node = Some (Element ''name'' [] (Some ''counter'') []) \<and>
   get empty_signature_node ''id'' = Some ''a_8c_1'' \<and>
   member_name empty_signature_node = None \<and>
   parse_tree ''xml/a_8c.xml'' (compound_doc [empty_signature_node]) =
     (''xml/a_8c.xml'', [(None, False)])"
  by code_simp

section \<open>The order of the report\<close>

text \<open>
  What the loop prints, and what a returning \<open>report\<close> has printed: the file lines
  are those of a leading part of the included paths of the list the loop runs over, and
  of all of them when the loop ends without an exception.
\<close>

lemma report_loop_prefix:
  "\<exists>ps. prefix ps (filter (is_included files ex) fs) \<and>
        file_paths (printed (fst (report_loop files ex fs st))) = file_paths (printed st) @ ps"
proof (induction fs arbitrary: st)
  case Nil
  show ?case by simp
next
  case (Cons f fs)
  show ?case
  proof (cases "is_excluded ex f")
    case True
    from Cons.IH [of st] obtain ps where
      "prefix ps (filter (is_included files ex) fs)"
      and "file_paths (printed (fst (report_loop files ex fs st))) = file_paths (printed st) @ ps"
      by blast
    moreover from True have "\<not> is_included files ex f" by (simp add: is_included_def)
    ultimately show ?thesis using True by (intro exI [of _ ps]) simp
  next
    case incl: False
    show ?thesis
    proof (cases "map_of files f")
      case None
      with incl show ?thesis by (intro exI [of _ "[]"]) simp
    next
      case (Some defs)
      show ?thesis
      proof (cases "defs = []")
        case True
        from Cons.IH [of st] obtain ps where
          "prefix ps (filter (is_included files ex) fs)"
          and "file_paths (printed (fst (report_loop files ex fs st))) = file_paths (printed st) @ ps"
          by blast
        moreover from Some True have "\<not> is_included files ex f"
          by (simp add: is_included_def records_of_def)
        ultimately show ?thesis using incl Some True by (intro exI [of _ ps]) simp
      next
        case nonempty: False
        with incl Some have inc: "is_included files ex f"
          by (simp add: is_included_def records_of_def)
        show ?thesis
        proof (cases "py_percent (count_yes defs) (count_yes defs + count_no defs)")
          case (Inl e)
          with incl Some nonempty show ?thesis by (intro exI [of _ "[]"]) simp
        next
          case (Inr doc_per)
          show ?thesis
          proof (cases "list_sort (undocumented defs)")
            case (Inl e)
            with incl Some nonempty Inr inc show ?thesis
              by (intro exI [of _ "[f]"]) (simp add: file_paths_append Let_def)
          next
            case sorted_names: (Inr defs_sorted)
            let ?st = "st\<lparr>total_yes := total_yes st + count_yes defs,
                          total_no := total_no st + count_no defs,
                          printed := printed st @
                            [FileLine (py_int doc_per) f (count_yes defs)
                               (count_yes defs + count_no defs)] @
                            map SymLine defs_sorted\<rparr>"
            from Cons.IH [of ?st] obtain ps where
              ps: "prefix ps (filter (is_included files ex) fs)"
                "file_paths (printed (fst (report_loop files ex fs ?st))) =
                   file_paths (printed ?st) @ ps"
              by blast
            have "file_paths (printed ?st) = file_paths (printed st) @ [f]"
              by (simp add: file_paths_append file_paths_SymLine)
            with ps incl Some nonempty Inr sorted_names inc show ?thesis
              by (intro exI [of _ "f # ps"]) (simp add: Let_def)
          qed
        qed
      qed
    qed
  qed
qed

lemma file_paths_blocks:
  "file_paths (concat (map (file_block files) ps)) = ps"
  by (induction ps) (simp_all add: file_block_def Let_def file_paths_append file_paths_SymLine)

text \<open>
  When \<open>report\<close> returns. On a table in which every path has records and no record
  is empty (as \<open>parse\<close> builds it), the loop ends without an exception if no path
  that is not excluded has a nameless identifier among two or more undocumented ones;
  with one path not excluded the total is positive, and with a threshold below \<open>2 ^ 53\<close>
  the subtraction of line 188 is exact in its left operand.
\<close>

lemma report_loop_ends:
  assumes "\<forall>f defs. map_of files f = Some defs \<longrightarrow> defs \<noteq> [] \<and> [] \<notin> set defs"
    and "\<forall>f defs. map_of files f = Some defs \<and> \<not> is_excluded ex f \<longrightarrow>
           length (undocumented defs) < 2 \<or> None \<notin> set (undocumented defs)"
    and "set fs \<subseteq> fst ` set files"
  shows "\<exists>st'. report_loop files ex fs st = (st', None)"
  using assms(3)
proof (induction fs arbitrary: st)
  case Nil
  show ?case by simp
next
  case (Cons f fs)
  from Cons.prems have fs: "set fs \<subseteq> fst ` set files" by simp
  show ?case
  proof (cases "is_excluded ex f")
    case True
    with Cons.IH [OF fs, of st] show ?thesis by simp
  next
    case incl: False
    from Cons.prems have "f \<in> fst ` set files" by simp
    then have "map_of files f \<noteq> None" by (simp add: map_of_eq_None_iff)
    then obtain defs where m: "map_of files f = Some defs" by auto
    with assms(1) have ne: "defs \<noteq> []" "[] \<notin> set defs" by blast+
    then have "0 < count_yes defs + count_no defs" by (rule count_positive)
    then obtain c where c: "py_percent (count_yes defs) (count_yes defs + count_no defs) = Inr c"
      by (simp add: py_percent_def)
    from assms(2) m incl
    have "length (undocumented defs) < 2 \<or> None \<notin> set (undocumented defs)" by blast
    then have ks: "list_sort (undocumented defs) = Inr (sort (undocumented defs))"
      by (auto simp: list_sort_def)
    show ?thesis
      unfolding report_loop_print [OF incl m ne(1) c ks] by (rule Cons.IH [OF fs])
  qed
qed

lemma sum_list_map_member:
  fixes g :: "'a \<Rightarrow> nat"
  shows "x \<in> set xs \<Longrightarrow> g x \<le> sum_list (map g xs)"
  by (induction xs) auto

lemma report_total:
  assumes "\<forall>f defs. map_of files f = Some defs \<longrightarrow> defs \<noteq> [] \<and> [] \<notin> set defs"
    and "\<forall>f defs. map_of files f = Some defs \<and> \<not> is_excluded ex f \<longrightarrow>
           length (undocumented defs) < 2 \<or> None \<notin> set (undocumented defs)"
    and "\<exists>f defs. map_of files f = Some defs \<and> \<not> is_excluded ex f"
    and "\<bar>threshold ns\<bar> < 2 ^ 53"
  shows "\<exists>out v. report ns files ex = (out, Inr v)"
proof -
  have "\<forall>g\<in>fst ` set files. \<not> isl (get_coverage files g)"
  proof
    fix g assume "g \<in> fst ` set files"
    then have "map_of files g \<noteq> None" by (simp add: map_of_eq_None_iff)
    then obtain ds where mg: "map_of files g = Some ds" by auto
    with assms(1) have "ds \<noteq> []" "[] \<notin> set ds" by blast+
    then have "0 < count_yes ds + count_no ds" by (rule count_positive)
    with mg \<open>ds \<noteq> []\<close> show "\<not> isl (get_coverage files g)"
      by (simp add: get_coverage_def py_percent_def)
  qed
  then obtain fs where fs: "files_sorted files = Inr fs"
    by (auto simp: files_sorted_iff)
  then have sub: "set fs \<subseteq> fst ` set files" by (simp add: files_sorted_set)
  from report_loop_ends [OF assms(1,2) sub] obtain st where
    loop: "report_loop files ex fs \<lparr>printed = [], total_yes = 0, total_no = 0\<rparr> = (st, None)"
    by blast
  from assms(3) obtain f defs where f: "map_of files f = Some defs" "\<not> is_excluded ex f"
    by blast
  with assms(1) have ne: "defs \<noteq> []" "[] \<notin> set defs" by blast+
  then have pos: "0 < count_yes defs + count_no defs" by (rule count_positive)
  from f(1) have "f \<in> fst ` set files" by (rule map_of_SomeD [THEN image_eqI [rotated]]) simp
  with fs have "f \<in> set fs" by (simp add: files_sorted_set)
  with f ne have inc: "f \<in> set (filter (is_included files ex) fs)"
    by (simp add: is_included_def records_of_def)
  let ?g = "\<lambda>f. count_yes (records_of files f) + count_no (records_of files f)"
  from inc have "?g f \<le> sum_list (map ?g (filter (is_included files ex) fs))"
    by (rule sum_list_map_member)
  moreover have "?g f = count_yes defs + count_no defs" by (simp add: records_of_def f)
  moreover have "sum_list (map ?g (filter (is_included files ex) fs)) =
      total_yes st + total_no st"
    using report_loop_closed [OF loop] by (simp add: sum_list_addf)
  ultimately have "count_yes defs + count_no defs \<le> total_yes st + total_no st" by simp
  with pos have "0 < total_yes st + total_no st" by (rule less_le_trans)
  then obtain total_per where
    t: "int_truediv (total_yes st * 100) (total_yes st + total_no st) = Inr total_per"
    by (simp add: int_truediv_def)
  have d: "int_sub_float (threshold ns) (num_val total_per) =
      Inr (fl (of_int (threshold ns) - num_val total_per))"
    using assms(4) by (rule int_sub_float_exact)
  from report_eval [OF fs loop t d] show ?thesis by blast
qed

text \<open>
  C1, as the code has it. When \<open>report\<close> returns, the paths of its file lines are
  exactly the included paths (not excluded, with a record) of the table, in the order of
  line 152: the keys sorted by ascending coverage (a stable sort) and then reversed. So
  they are in descending order of the per-path coverage that \<^verbatim>\<open>get_coverage\<close>
  computes, highest coverage first. When an exception ends \<open>report\<close>, the file lines
  printed before it are a leading part of the same list. Every path printed has a
  coverage. And \<open>report\<close> does return on a table as \<open>parse\<close> builds it that has a
  path not excluded, when no such path has a nameless identifier among two or more
  undocumented ones and the threshold is below \<open>2 ^ 53\<close>.
\<close>

theorem report_order_descending:
  "prefix (file_paths (fst (report ns files exclude_dirs)))
     (filter (is_included files exclude_dirs)
        (rev (sort_key (cov_key files) (map fst files)))) \<and>
   (report ns files exclude_dirs = (out, Inr v) \<longrightarrow>
      file_paths out =
        filter (is_included files exclude_dirs)
          (rev (sort_key (cov_key files) (map fst files)))) \<and>
   sorted_wrt (\<lambda>a b. cov_key files b \<le> cov_key files a)
     (file_paths (fst (report ns files exclude_dirs))) \<and>
   (\<forall>f\<in>set (file_paths (fst (report ns files exclude_dirs))).
      \<exists>c. get_coverage files f = Inr c) \<and>
   ((\<forall>f defs. map_of files f = Some defs \<longrightarrow> defs \<noteq> [] \<and> [] \<notin> set defs) \<and>
    (\<forall>f defs. map_of files f = Some defs \<and> \<not> is_excluded exclude_dirs f \<longrightarrow>
       length (undocumented defs) < 2 \<or> None \<notin> set (undocumented defs)) \<and>
    (\<exists>f defs. map_of files f = Some defs \<and> \<not> is_excluded exclude_dirs f) \<and>
    \<bar>threshold ns\<bar> < 2 ^ 53 \<longrightarrow>
      (\<exists>out' v'. report ns files exclude_dirs = (out', Inr v')))"
proof (intro conjI impI)
  let ?st0 = "\<lparr>printed = [], total_yes = 0, total_no = 0\<rparr>"
  let ?sorted = "rev (sort_key (cov_key files) (map fst files))"
  show "prefix (file_paths (fst (report ns files exclude_dirs)))
     (filter (is_included files exclude_dirs) ?sorted)"
  proof (cases "files_sorted files")
    case (Inl e)
    then show ?thesis by (simp add: report_def)
  next
    case (Inr fs)
    from report_loop_prefix [of files exclude_dirs fs ?st0] obtain ps where
      ps: "prefix ps (filter (is_included files exclude_dirs) fs)"
        "file_paths (printed (fst (report_loop files exclude_dirs fs ?st0))) = ps"
      by auto
    from ps(2) have "file_paths (fst (report ns files exclude_dirs)) = ps"
      by (simp add: report_file_paths [OF Inr])
    with ps(1) files_sorted_Inr [OF Inr] show ?thesis by simp
  qed
next
  assume r: "report ns files exclude_dirs = (out, Inr v)"
  from r obtain fs st total_per where
    fs: "files_sorted files = Inr fs" and
    loop: "report_loop files exclude_dirs fs \<lparr>printed = [], total_yes = 0, total_no = 0\<rparr> = (st, None)" and
    out: "out = printed st @ [BlankLine, TotalLine (py_int total_per)]"
    by (rule report_returns)
  from report_loop_closed [OF loop]
  have "printed st = concat (map (file_block files) (filter (is_included files exclude_dirs) fs))"
    by simp
  with out have "file_paths out = filter (is_included files exclude_dirs) fs"
    by (simp add: file_paths_append file_paths_blocks)
  with files_sorted_Inr [OF fs]
  show "file_paths out =
        filter (is_included files exclude_dirs) (rev (sort_key (cov_key files) (map fst files)))"
    by simp
next
  show "sorted_wrt (\<lambda>a b. cov_key files b \<le> cov_key files a)
     (file_paths (fst (report ns files exclude_dirs)))"
  proof (cases "files_sorted files")
    case (Inl e)
    then show ?thesis by (simp add: report_def)
  next
    case (Inr fs)
    let ?st0 = "\<lparr>printed = [], total_yes = 0, total_no = 0\<rparr>"
    from report_loop_paths [of fs exclude_dirs files ?st0] obtain ps where
      ps: "subseq ps fs"
        "file_paths (printed (fst (report_loop files exclude_dirs fs ?st0))) = ps"
      by auto
    from ps(2) have out: "file_paths (fst (report ns files exclude_dirs)) = ps"
      by (simp add: report_file_paths [OF Inr])
    from files_sorted_descending [OF Inr] ps(1)
    have "sorted_wrt (\<lambda>a b. cov_key files b \<le> cov_key files a) ps"
      by (rule sorted_wrt_subseq [rotated])
    with out show ?thesis by simp
  qed
next
  show "\<forall>f\<in>set (file_paths (fst (report ns files exclude_dirs))).
      \<exists>c. get_coverage files f = Inr c"
  proof (cases "files_sorted files")
    case (Inl e)
    then show ?thesis by (simp add: report_def)
  next
    case (Inr fs)
    let ?st0 = "\<lparr>printed = [], total_yes = 0, total_no = 0\<rparr>"
    from report_loop_paths [of fs exclude_dirs files ?st0] obtain ps where
      ps: "\<forall>f\<in>set ps. \<not> is_excluded exclude_dirs f \<and> (\<exists>c. get_coverage files f = Inr c)"
        "file_paths (printed (fst (report_loop files exclude_dirs fs ?st0))) = ps"
      by auto
    from ps(2) have out: "file_paths (fst (report ns files exclude_dirs)) = ps"
      by (simp add: report_file_paths [OF Inr])
    with ps(1) show ?thesis by simp
  qed
next
  assume a: "(\<forall>f defs. map_of files f = Some defs \<longrightarrow> defs \<noteq> [] \<and> [] \<notin> set defs) \<and>
    (\<forall>f defs. map_of files f = Some defs \<and> \<not> is_excluded exclude_dirs f \<longrightarrow>
       length (undocumented defs) < 2 \<or> None \<notin> set (undocumented defs)) \<and>
    (\<exists>f defs. map_of files f = Some defs \<and> \<not> is_excluded exclude_dirs f) \<and>
    \<bar>threshold ns\<bar> < 2 ^ 53"
  show "\<exists>out' v'. report ns files exclude_dirs = (out', Inr v')"
    by (rule report_total) (use a in blast)+
qed

lemma report_loop_10_90_50:
  "report_loop coverage_10_90_50 [] [''ninety.c'', ''fifty.c'', ''ten.c'']
      \<lparr>printed = [], total_yes = 0, total_no = 0\<rparr> =
   (\<lparr>printed = file_block coverage_10_90_50 ''ninety.c'' @ file_block coverage_10_90_50 ''fifty.c'' @
        file_block coverage_10_90_50 ''ten.c'',
      total_yes = 11, total_no = 11\<rparr>, None)"
proof -
  have m: "map_of coverage_10_90_50 ''ten.c'' = Some [ten_defs]"
    "map_of coverage_10_90_50 ''ninety.c'' = Some [ninety_defs]"
    "map_of coverage_10_90_50 ''fifty.c'' = Some [fifty_defs]"
    by (simp_all add: coverage_10_90_50_def)
  have e: "\<not> is_excluded [] f" for f by (simp add: is_excluded_def)
  note s = list_sort_strings [OF names_10_90_50(1)] list_sort_strings [OF names_10_90_50(2)]
    list_sort_strings [OF names_10_90_50(3)]
  have ne: "[d] \<noteq> []" for d :: definitions by simp
  show ?thesis
    unfolding report_loop_print [OF e m(2) ne percent_10_90_50(2) s(2)]
      report_loop_print [OF e m(3) ne percent_10_90_50(3) s(3)]
      report_loop_print [OF e m(1) ne percent_10_90_50(1) s(1)]
    by (simp add: counts_10_90_50)
qed

lemma report_returns_10_90_50:
  "report default_ns coverage_10_90_50 [] =
     (file_block coverage_10_90_50 ''ninety.c'' @ file_block coverage_10_90_50 ''fifty.c'' @
        file_block coverage_10_90_50 ''ten.c'' @ [BlankLine, TotalLine 50],
      Inr (PFloat 30))"
proof -
  let ?st = "\<lparr>printed = file_block coverage_10_90_50 ''ninety.c'' @
        file_block coverage_10_90_50 ''fifty.c'' @ file_block coverage_10_90_50 ''ten.c'',
      total_yes = 11, total_no = 11\<rparr>"
  have t: "int_truediv (total_yes ?st * 100) (total_yes ?st + total_no ?st) = Inr (PFloat (of_nat 50))"
    by (rule int_truediv_whole) simp_all
  have d: "int_sub_float (threshold default_ns) (num_val (PFloat (of_nat 50))) = Inr 30"
    by (simp add: int_sub_float_exact fl_numeral_exact default_ns_def)
  show ?thesis
    unfolding report_eval [OF files_sorted_10_90_50 report_loop_10_90_50 t d]
    by (simp add: default_ns_def)
qed

lemma table_10_90_50:
  "\<forall>f defs. map_of coverage_10_90_50 f = Some defs \<longrightarrow> defs \<noteq> [] \<and> [] \<notin> set defs"
  "\<forall>f defs. map_of coverage_10_90_50 f = Some defs \<and> \<not> is_excluded [] f \<longrightarrow>
     length (undocumented defs) < 2 \<or> None \<notin> set (undocumented defs)"
  "\<exists>f defs. map_of coverage_10_90_50 f = Some defs \<and> \<not> is_excluded [] f"
proof -
  have m: "map_of coverage_10_90_50 f = Some defs \<Longrightarrow>
      defs = [ten_defs] \<or> defs = [ninety_defs] \<or> defs = [fifty_defs]" for f defs
    by (auto simp: coverage_10_90_50_def split: if_splits)
  have n: "ten_defs \<noteq> []" "ninety_defs \<noteq> []" "fifty_defs \<noteq> []"
    by (simp_all add: ten_defs_def ninety_defs_def fifty_defs_def)
  show "\<forall>f defs. map_of coverage_10_90_50 f = Some defs \<longrightarrow> defs \<noteq> [] \<and> [] \<notin> set defs"
    using n by (auto dest!: m)
  show "\<forall>f defs. map_of coverage_10_90_50 f = Some defs \<and> \<not> is_excluded [] f \<longrightarrow>
     length (undocumented defs) < 2 \<or> None \<notin> set (undocumented defs)"
    using names_10_90_50 by (auto dest!: m)
  have "map_of coverage_10_90_50 ''ten.c'' = Some [ten_defs] \<and> \<not> is_excluded [] ''ten.c''"
    by (simp add: coverage_10_90_50_def is_excluded_def)
  then show "\<exists>f defs. map_of coverage_10_90_50 f = Some defs \<and> \<not> is_excluded [] f"
    by blast
qed

theorem report_order_descending_witness:
  "(\<exists>out v. report default_ns coverage_10_90_50 [] = (out, Inr v)) \<and>
   snd (report default_ns coverage_10_90_50 []) = Inr (PFloat 30) \<and>
   file_paths (fst (report default_ns coverage_10_90_50 [])) =
     [''ninety.c'', ''fifty.c'', ''ten.c''] \<and>
   filter (is_included coverage_10_90_50 [])
     (rev (sort_key (cov_key coverage_10_90_50) (map fst coverage_10_90_50))) =
     [''ninety.c'', ''fifty.c'', ''ten.c''] \<and>
   sorted_wrt (\<lambda>a b. cov_key coverage_10_90_50 b \<le> cov_key coverage_10_90_50 a)
     [''ninety.c'', ''fifty.c'', ''ten.c''] \<and>
   map (cov_key coverage_10_90_50) [''ninety.c'', ''fifty.c'', ''ten.c''] = [90, 50, 10] \<and>
   get_coverage coverage_10_90_50 ''ten.c'' = Inr (PFloat 10)"
proof -
  note t = report_order_descending [of default_ns coverage_10_90_50 "[]"
      "fst (report default_ns coverage_10_90_50 [])" "PFloat 30"]
  have h: "\<bar>threshold default_ns\<bar> < 2 ^ 53" by (simp add: default_ns_def)
  from t table_10_90_50 h
  have 0: "\<exists>out v. report default_ns coverage_10_90_50 [] = (out, Inr v)"
    by blast
  have r: "report default_ns coverage_10_90_50 [] =
      (fst (report default_ns coverage_10_90_50 []), Inr (PFloat 30))"
    by (simp add: report_returns_10_90_50)
  from t r
  have "file_paths (fst (report default_ns coverage_10_90_50 [])) =
          filter (is_included coverage_10_90_50 [])
            (rev (sort_key (cov_key coverage_10_90_50) (map fst coverage_10_90_50)))"
    and "sorted_wrt (\<lambda>a b. cov_key coverage_10_90_50 b \<le> cov_key coverage_10_90_50 a)
           (file_paths (fst (report default_ns coverage_10_90_50 [])))"
    by blast+
  moreover from r have "snd (report default_ns coverage_10_90_50 []) = Inr (PFloat 30)"
    by (simp add: report_returns_10_90_50)
  moreover have "map (cov_key coverage_10_90_50) [''ninety.c'', ''fifty.c'', ''ten.c''] = [90, 50, 10]"
    using cov_key_10_90_50 by simp
  ultimately show ?thesis
    using 0 by (simp only: report_10_90_50 get_coverage_10_90_50 simp_thms)
qed

text \<open>
  The claim as stated fails: with coverages 10\%, 90\%, 50\% the report lists 90\%, 50\%,
  10\%, which is not ascending.
\<close>

theorem ascending_order_counterexample:
  "map (cov_key coverage_10_90_50) [''ten.c'', ''ninety.c'', ''fifty.c''] = [10, 90, 50] \<and>
   file_paths (fst (report default_ns coverage_10_90_50 [])) =
     [''ninety.c'', ''fifty.c'', ''ten.c''] \<and>
   \<not> sorted (map (cov_key coverage_10_90_50)
               (file_paths (fst (report default_ns coverage_10_90_50 []))))"
proof -
  have "\<not> sorted (map (cov_key coverage_10_90_50) [''ninety.c'', ''fifty.c'', ''ten.c''])"
    using cov_key_10_90_50 by simp
  with report_10_90_50 cov_key_10_90_50 show ?thesis by simp
qed

end
